theory Spec2Isabelle
  imports Complex_Main "HOL-Library.Monad_Syntax"
begin

section \<open>The free store\<close>

text \<open>
  \<open>IntSet.cpp\<close> keeps the members of a set in an \<open>int\<close> array obtained with
  \<open>new int[n]\<close> and released with \<open>delete []\<close>. The arrays live in a store that maps
  an address to a block of cells. A cell is \<open>None\<close> until something is assigned to it,
  as the elements of a fresh \<open>new int[n]\<close> are indeterminate. Every access the C++
  leaves undefined (an index outside the block, a block that was released, a cell never
  assigned) is the result \<open>None\<close> of the operation that performs it.

  Addresses are handed out by a counter, so a block that \<open>new\<close> returns is never a block
  that is already in use. Exhaustion of memory is not modelled: \<open>new\<close> succeeds for
  every length that is not negative.

  The model computes with the integers of HOL where the C++ has \<open>int\<close>. The values
  stored are only copied, compared and printed, so for them the bound of \<open>int\<close> makes
  no difference. \<open>capacity\<close> and \<open>used\<close> are integers because the constructor and
  \<open>resize\<close> receive arbitrary ones. The computations on them that can leave the range
  of a 32-bit \<open>int\<close> are the two of \<open>add\<close>: the request \<open>int(1.5 * capacity) + 1\<close>
  and \<open>used++\<close>. The C++ leaves a conversion to \<open>int\<close> and a signed addition
  undefined when the result is not an \<open>int\<close>; in the model they return \<open>None\<close> then
  (\<open>int_of_double\<close>, \<open>int_plus\<close>). \<open>used--\<close> in \<open>remove\<close> is applied to a
  \<open>used\<close> that is at least 1. The counters of the loops start at 0 or 1 and only
  grow, so they are natural numbers.
\<close>

type_synonym addr = nat
type_synonym cell = "int option"

record heap =
  arrays :: "addr \<Rightarrow> cell list option"
  next_addr :: addr

definition rd :: "heap \<Rightarrow> addr \<Rightarrow> nat \<Rightarrow> int option" where
  "rd h p i = (case arrays h p of
                 None \<Rightarrow> None
               | Some cs \<Rightarrow> if i < length cs then cs ! i else None)"

definition wr :: "heap \<Rightarrow> addr \<Rightarrow> nat \<Rightarrow> int \<Rightarrow> heap option" where
  "wr h p i v = (case arrays h p of
                   None \<Rightarrow> None
                 | Some cs \<Rightarrow> if i < length cs
                             then Some (h\<lparr>arrays := (arrays h)(p \<mapsto> cs[i := Some v])\<rparr>)
                             else None)"

definition new_array :: "int \<Rightarrow> heap \<Rightarrow> (addr \<times> heap) option" where
  "new_array n h = (if n < 0 then None
                    else Some (next_addr h,
                               h\<lparr>arrays := (arrays h)(next_addr h \<mapsto> replicate (nat n) None),
                                 next_addr := Suc (next_addr h)\<rparr>))"

definition delete_array :: "addr \<Rightarrow> heap \<Rightarrow> heap option" where
  "delete_array p h = (case arrays h p of
                         None \<Rightarrow> None
                       | Some cs \<Rightarrow> Some (h\<lparr>arrays := (arrays h)(p := None)\<rparr>))"

section \<open>The class IntSet\<close>

text \<open>
  The three data members of the class. An object is passed to a member function as a
  value of this record together with the store, and a member function that is not
  \<open>const\<close> returns both updated.
\<close>

record IntSet =
  data :: addr
  capacity :: int
  used :: int

text \<open>
  The element-by-element copy \<open>for (int i = 0; i < n; ++i) dst[i] = src[i];\<close> that
  \<open>resize\<close>, the copy constructor and the assignment operator each contain.
\<close>

function copy_loop :: "addr \<Rightarrow> addr \<Rightarrow> int \<Rightarrow> nat \<Rightarrow> heap \<Rightarrow> heap option" where
  "copy_loop src dst n i h =
     (if int i < n
      then do { x \<leftarrow> rd h src i;
                h' \<leftarrow> wr h dst i x;
                copy_loop src dst n (Suc i) h' }
      else Some h)"
  by pat_completeness auto
termination
  by (relation "measure (\<lambda>(src, dst, n, i, h). nat (n - int i))") auto

declare copy_loop.simps [simp del]

text \<open>
  \<open>DEFAULT_CAPACITY\<close> is declared in \<open>IntSet.h\<close>, which is not among the sources. The
  functions that mention it take it as their first argument \<open>D\<close>.
\<close>

definition resize :: "int \<Rightarrow> int \<Rightarrow> IntSet \<times> heap \<Rightarrow> (IntSet \<times> heap) option" where
  "resize D new_capacity = (\<lambda>(s, h).
     let nc1 = (if new_capacity < used s then used s else new_capacity);
         nc2 = (if nc1 < 1 then D else nc1)
     in do { (newData, h1) \<leftarrow> new_array nc2 h;
             h2 \<leftarrow> copy_loop (data s) newData (used s) 0 h1;
             h3 \<leftarrow> delete_array (data s) h2;
             Some (s\<lparr>data := newData, capacity := nc2\<rparr>, h3) })"

definition IntSet_ctor :: "int \<Rightarrow> int \<Rightarrow> heap \<Rightarrow> (IntSet \<times> heap) option" where
  "IntSet_ctor D initial_capacity h =
     (let c = (if initial_capacity < 1 then D else initial_capacity)
      in do { (p, h1) \<leftarrow> new_array c h;
              Some (\<lparr>data = p, capacity = c, used = 0\<rparr>, h1) })"

definition IntSet_copy :: "IntSet \<Rightarrow> heap \<Rightarrow> (IntSet \<times> heap) option" where
  "IntSet_copy src h =
     do { (p, h1) \<leftarrow> new_array (capacity src) h;
          h2 \<leftarrow> copy_loop (data src) p (used src) 0 h1;
          Some (\<lparr>data = p, capacity = capacity src, used = used src\<rparr>, h2) }"

definition IntSet_dtor :: "IntSet \<Rightarrow> heap \<Rightarrow> heap option" where
  "IntSet_dtor s h = delete_array (data s) h"

definition size_IntSet :: "IntSet \<Rightarrow> int" where
  "size_IntSet s = used s"

definition isEmpty :: "IntSet \<Rightarrow> bool" where
  "isEmpty s = (used s = 0)"

function contains_loop :: "heap \<Rightarrow> IntSet \<Rightarrow> int \<Rightarrow> nat \<Rightarrow> bool option" where
  "contains_loop h s anInt i =
     (if int i < used s
      then do { x \<leftarrow> rd h (data s) i;
                if x = anInt then Some True else contains_loop h s anInt (Suc i) }
      else Some False)"
  by pat_completeness auto
termination
  by (relation "measure (\<lambda>(h, s, anInt, i). nat (used s - int i))") auto

declare contains_loop.simps [simp del]

definition contains :: "heap \<Rightarrow> IntSet \<Rightarrow> int \<Rightarrow> bool option" where
  "contains h s anInt = (if used s > 0 then contains_loop h s anInt 0 else Some False)"

function isSubsetOf_loop :: "heap \<Rightarrow> IntSet \<Rightarrow> IntSet \<Rightarrow> nat \<Rightarrow> bool option" where
  "isSubsetOf_loop h s otherIntSet i =
     (if int i < size_IntSet s
      then do { x \<leftarrow> rd h (data s) i;
                c \<leftarrow> contains h otherIntSet x;
                if \<not> c then Some False else isSubsetOf_loop h s otherIntSet (Suc i) }
      else Some True)"
  by pat_completeness auto
termination
  by (relation "measure (\<lambda>(h, s, otherIntSet, i). nat (size_IntSet s - int i))") auto

declare isSubsetOf_loop.simps [simp del]

definition isSubsetOf :: "heap \<Rightarrow> IntSet \<Rightarrow> IntSet \<Rightarrow> bool option" where
  "isSubsetOf h s otherIntSet =
     (if isEmpty s then Some True else isSubsetOf_loop h s otherIntSet 0)"

text \<open>
  \<open>out << x\<close> for an \<open>int\<close> writes its decimal digits, after a minus sign when it is
  negative. The stream is the string of the characters written so far.
\<close>

definition digit_char :: "nat \<Rightarrow> char" where
  "digit_char d = ''0123456789'' ! d"

fun dec_digits :: "nat \<Rightarrow> string" where
  "dec_digits n = (if n < 10 then [digit_char n]
                   else dec_digits (n div 10) @ [digit_char (n mod 10)])"

declare dec_digits.simps [simp del]

definition show_int :: "int \<Rightarrow> string" where
  "show_int x = (if x < 0 then CHR ''-'' # dec_digits (nat (- x)) else dec_digits (nat x))"

function DumpData_loop :: "heap \<Rightarrow> IntSet \<Rightarrow> nat \<Rightarrow> string \<Rightarrow> string option" where
  "DumpData_loop h s i out =
     (if int i < used s
      then do { x \<leftarrow> rd h (data s) i;
                DumpData_loop h s (Suc i) (out @ ''  '' @ show_int x) }
      else Some out)"
  by pat_completeness auto
termination
  by (relation "measure (\<lambda>(h, s, i, out). nat (used s - int i))") auto

declare DumpData_loop.simps [simp del]

definition DumpData :: "heap \<Rightarrow> IntSet \<Rightarrow> string \<Rightarrow> string option" where
  "DumpData h s out =
     (if used s > 0
      then do { x \<leftarrow> rd h (data s) 0;
                DumpData_loop h s 1 (out @ show_int x) }
      else Some out)"

definition reset :: "IntSet \<Rightarrow> IntSet" where
  "reset s = s\<lparr>used := 0\<rparr>"

text \<open>
  The range of \<open>int\<close>, the conversion \<open>int(x)\<close> of a \<open>double\<close> (the fraction is
  discarded, rounding toward zero; undefined when the result is not an \<open>int\<close>) and the
  addition of two \<open>int\<close> (undefined when the sum is not an \<open>int\<close>).
\<close>

definition INT_MAX :: int where
  "INT_MAX = 2147483647"

definition INT_MIN :: int where
  "INT_MIN = - 2147483648"

definition int_of_double :: "real \<Rightarrow> int option" where
  "int_of_double x = (let t = (if 0 \<le> x then \<lfloor>x\<rfloor> else \<lceil>x\<rceil>)
                      in if INT_MIN \<le> t \<and> t \<le> INT_MAX then Some t else None)"

definition int_plus :: "int \<Rightarrow> int \<Rightarrow> int option" where
  "int_plus a b = (if INT_MIN \<le> a + b \<and> a + b \<le> INT_MAX then Some (a + b) else None)"

text \<open>
  \<open>int(1.5 * capacity) + 1\<close>, the argument that \<open>add\<close> passes to \<open>resize\<close>. The
  product is formed in \<open>double\<close>, where it is exact for every \<open>int\<close>.
\<close>

definition growth_request :: "int \<Rightarrow> int option" where
  "growth_request c = do { t \<leftarrow> int_of_double (1.5 * real_of_int c); int_plus t 1 }"

definition add :: "int \<Rightarrow> int \<Rightarrow> IntSet \<times> heap \<Rightarrow> (bool \<times> IntSet \<times> heap) option" where
  "add D anInt = (\<lambda>(s, h).
     do { c \<leftarrow> contains h s anInt;
          if \<not> c
          then do { (s1, h1) \<leftarrow> (if used s \<ge> capacity s
                                 then do { nc \<leftarrow> growth_request (capacity s);
                                           resize D nc (s, h) }
                                 else Some (s, h));
                    h2 \<leftarrow> (if used s1 < 0 then None
                           else wr h1 (data s1) (nat (used s1)) anInt);
                    u \<leftarrow> int_plus (used s1) 1;
                    Some (True, s1\<lparr>used := u\<rparr>, h2) }
          else Some (False, s, h) })"

text \<open>
  \<open>remove\<close>: the inner loop moves the elements behind position \<open>i\<close> one place down. The
  outer loop has the \<open>if\<close> with the inner loop as its whole body, so it runs through all
  of \<open>0 .. used - 1\<close>; \<open>used--\<close> and \<open>return true\<close> follow it. The inner counter starts
  at \<open>i + 1\<close>, so \<open>j - 1\<close> is never negative.
\<close>

function shift_loop :: "addr \<Rightarrow> int \<Rightarrow> nat \<Rightarrow> heap \<Rightarrow> heap option" where
  "shift_loop p u j h =
     (if int j < u
      then do { x \<leftarrow> rd h p j;
                h' \<leftarrow> wr h p (j - 1) x;
                shift_loop p u (Suc j) h' }
      else Some h)"
  by pat_completeness auto
termination
  by (relation "measure (\<lambda>(p, u, j, h). nat (u - int j))") auto

declare shift_loop.simps [simp del]

function remove_loop :: "IntSet \<Rightarrow> int \<Rightarrow> nat \<Rightarrow> heap \<Rightarrow> heap option" where
  "remove_loop s anInt i h =
     (if int i < used s
      then do { x \<leftarrow> rd h (data s) i;
                h' \<leftarrow> (if x = anInt then shift_loop (data s) (used s) (i + 1) h else Some h);
                remove_loop s anInt (Suc i) h' }
      else Some h)"
  by pat_completeness auto
termination
  by (relation "measure (\<lambda>(s, anInt, i, h). nat (used s - int i))") auto

declare remove_loop.simps [simp del]

definition remove :: "int \<Rightarrow> IntSet \<times> heap \<Rightarrow> (bool \<times> IntSet \<times> heap) option" where
  "remove anInt = (\<lambda>(s, h).
     do { c \<leftarrow> contains h s anInt;
          if c
          then do { h' \<leftarrow> remove_loop s anInt 0 h;
                    Some (True, s\<lparr>used := used s - 1\<rparr>, h') }
          else Some (False, s, h) })"

text \<open>
  The three derived operations build their result in a local object initialised as a
  copy of \<open>*this\<close> and return it; the result of the model is that local object, as it
  is when the compiler constructs the local object in the place of the return value.
  (Otherwise the copy constructor and the destructor run once more, and the caller
  receives the same \<open>capacity\<close>, \<open>used\<close> and members in one more new block.) Both
  operands are \<open>const\<close>: the functions receive their data members and only read their
  arrays.
\<close>

function unionWith_loop :: "int \<Rightarrow> IntSet \<Rightarrow> nat \<Rightarrow> IntSet \<Rightarrow> heap \<Rightarrow> (IntSet \<times> heap) option" where
  "unionWith_loop D otherIntSet i myUnionset h =
     (if int i < size_IntSet otherIntSet
      then do { x \<leftarrow> rd h (data otherIntSet) i;
                c \<leftarrow> contains h myUnionset x;
                (u', h') \<leftarrow> (if \<not> c
                             then do { y \<leftarrow> rd h (data otherIntSet) i;
                                       (b, r) \<leftarrow> add D y (myUnionset, h);
                                       Some r }
                             else Some (myUnionset, h));
                unionWith_loop D otherIntSet (Suc i) u' h' }
      else Some (myUnionset, h))"
  by pat_completeness auto
termination
  by (relation "measure (\<lambda>(D, otherIntSet, i, myUnionset, h). nat (size_IntSet otherIntSet - int i))") auto

declare unionWith_loop.simps [simp del]

definition unionWith :: "int \<Rightarrow> IntSet \<Rightarrow> IntSet \<Rightarrow> heap \<Rightarrow> (IntSet \<times> heap) option" where
  "unionWith D s otherIntSet h =
     do { (myUnionset, h1) \<leftarrow> IntSet_copy s h;
          unionWith_loop D otherIntSet 0 myUnionset h1 }"

text \<open>
  The simpler procedure that claim C10 compares \<open>unionWith\<close> with: copy \<open>*this\<close> and call
  \<open>add\<close> on every element of \<open>otherIntSet\<close> in its order, without asking \<open>contains\<close>
  first.
\<close>

function unionWith_simple_loop :: "int \<Rightarrow> IntSet \<Rightarrow> nat \<Rightarrow> IntSet \<Rightarrow> heap \<Rightarrow> (IntSet \<times> heap) option" where
  "unionWith_simple_loop D otherIntSet i myUnionset h =
     (if int i < size_IntSet otherIntSet
      then do { y \<leftarrow> rd h (data otherIntSet) i;
                (b, r) \<leftarrow> add D y (myUnionset, h);
                unionWith_simple_loop D otherIntSet (Suc i) (fst r) (snd r) }
      else Some (myUnionset, h))"
  by pat_completeness auto
termination
  by (relation "measure (\<lambda>(D, otherIntSet, i, myUnionset, h). nat (size_IntSet otherIntSet - int i))") auto

declare unionWith_simple_loop.simps [simp del]

definition unionWith_simple :: "int \<Rightarrow> IntSet \<Rightarrow> IntSet \<Rightarrow> heap \<Rightarrow> (IntSet \<times> heap) option" where
  "unionWith_simple D s otherIntSet h =
     do { (myUnionset, h1) \<leftarrow> IntSet_copy s h;
          unionWith_simple_loop D otherIntSet 0 myUnionset h1 }"







definition operator_eq :: "heap \<Rightarrow> IntSet \<Rightarrow> IntSet \<Rightarrow> bool option" where
  "operator_eq h is1 is2 =
     do { a \<leftarrow> isSubsetOf h is1 is2;
          b \<leftarrow> (if a then isSubsetOf h is2 is1 else Some False);
          if a \<and> b then Some True else Some False }"

text \<open>
  \<open>operator=\<close> compares the addresses of the two objects. For this function the objects
  stand in a table from addresses to their data members, and \<open>this\<close> and \<open>rhs\<close> are
  addresses of that table.
\<close>

definition operator_assign ::
  "addr \<Rightarrow> addr \<Rightarrow> (addr \<Rightarrow> IntSet option) \<times> heap \<Rightarrow> ((addr \<Rightarrow> IntSet option) \<times> heap) option" where
  "operator_assign this rhs = (\<lambda>(objs, h).
     if this \<noteq> rhs
     then do { t \<leftarrow> objs this;
               r \<leftarrow> objs rhs;
               (newData, h1) \<leftarrow> new_array (capacity r) h;
               h2 \<leftarrow> copy_loop (data r) newData (used r) 0 h1;
               h3 \<leftarrow> delete_array (data t) h2;
               Some (objs(this \<mapsto> \<lparr>data = newData, capacity = capacity r, used = used r\<rparr>), h3) }
     else Some (objs, h))"

section \<open>The class invariant and the contents of a set\<close>

text \<open>
  The invariant of the class, for an object \<open>s\<close> in a store \<open>h\<close>: \<open>data\<close> is a block that
  \<open>new\<close> has handed out and that has not been released, the block has \<open>capacity\<close>
  cells, \<open>capacity\<close> is at least 1, \<open>used\<close> lies between 0 and \<open>capacity\<close>, and the
  first \<open>used\<close> cells have been assigned pairwise distinct values.
\<close>

definition IntSet_inv :: "heap \<Rightarrow> IntSet \<Rightarrow> bool" where
  "IntSet_inv h s =
     (case arrays h (data s) of
        None \<Rightarrow> False
      | Some cs \<Rightarrow> data s < next_addr h \<and> int (length cs) = capacity s \<and> 1 \<le> capacity s \<and>
                  0 \<le> used s \<and> used s \<le> capacity s \<and>
                  list_all (\<lambda>c. c \<noteq> None) (take (nat (used s)) cs) \<and>
                  distinct (take (nat (used s)) cs))"

text \<open>
  The members of \<open>s\<close> in the order in which \<open>DumpData\<close> writes them: the values of the
  cells \<open>0 .. used - 1\<close>.
\<close>

definition live :: "heap \<Rightarrow> IntSet \<Rightarrow> int list" where
  "live h s = map the (take (nat (used s)) (case arrays h (data s) of None \<Rightarrow> [] | Some cs \<Rightarrow> cs))"

text \<open>
  \<open>unchanged_but p h h'\<close>: going from the store \<open>h\<close> to the store \<open>h'\<close>, no block that
  \<open>new\<close> had handed out in \<open>h\<close> was touched, except possibly the block \<open>p\<close>, and the
  blocks handed out since are new ones.
\<close>

definition unchanged_but :: "addr \<Rightarrow> heap \<Rightarrow> heap \<Rightarrow> bool" where
  "unchanged_but p h h' =
     (next_addr h \<le> next_addr h' \<and> (\<forall>q<next_addr h. q \<noteq> p \<longrightarrow> arrays h' q = arrays h q))"


text \<open>
  \<open>can_take s k\<close>: \<open>k\<close> further values can be added to \<open>s\<close> without the arithmetic
  of \<open>add\<close> leaving the range of \<open>int\<close>. Either there is nothing to add, or the set
  ends with at most 1431655765 members (then every capacity at which it has to grow is at
  most 1431655764, and the request \<open>int(1.5 * capacity) + 1\<close> is an \<open>int\<close>), or the
  values fit in the present capacity.
\<close>

definition can_take :: "IntSet \<Rightarrow> int \<Rightarrow> bool" where
  "can_take s k = (k \<le> 0 \<or> used s + k \<le> 1431655765 \<or>
                   (used s + k \<le> capacity s \<and> used s + k \<le> INT_MAX))"

text \<open>
  What \<open>DumpData\<close> writes for a set with the members \<open>xs\<close>: the first value, and every
  further value after two blanks.
\<close>

fun dump_list :: "int list \<Rightarrow> string" where
  "dump_list [] = []"
| "dump_list (x # xs) = show_int x @ concat (map (\<lambda>y. ''  '' @ show_int y) xs)"

text \<open>
  A caller that inserts the values of a list one after the other with \<open>add\<close>, as the
  tests of the specification do.
\<close>

fun add_all :: "int \<Rightarrow> int list \<Rightarrow> IntSet \<times> heap \<Rightarrow> (IntSet \<times> heap) option" where
  "add_all D [] sh = Some sh"
| "add_all D (v # vs) sh = do { (b, sh') \<leftarrow> add D v sh; add_all D vs sh' }"

text \<open>
  A store with two sets, used to instantiate the theorems below: \<open>ex_A\<close> holds 1, 2, 3
  in a block of four cells, \<open>ex_B\<close> holds 2, 3, 4 in a block of three.
\<close>

definition ex_heap :: heap where
  "ex_heap = \<lparr>arrays = (\<lambda>p. None)(0 \<mapsto> [Some 1, Some 2, Some 3, None],
                                     1 \<mapsto> [Some 2, Some 3, Some 4]),
              next_addr = 2\<rparr>"

definition ex_A :: IntSet where
  "ex_A = \<lparr>data = 0, capacity = 4, used = 3\<rparr>"

definition ex_B :: IntSet where
  "ex_B = \<lparr>data = 1, capacity = 3, used = 3\<rparr>"





definition ex_objs :: "addr \<Rightarrow> IntSet option" where
  "ex_objs = (\<lambda>p. None)(10 \<mapsto> ex_A, 11 \<mapsto> ex_B)"

section \<open>Reading and writing a block\<close>

lemma rd_Some: "arrays h p = Some cs \<Longrightarrow> rd h p i = (if i < length cs then cs ! i else None)"
  by (simp add: rd_def)

lemma wr_Some: "arrays h p = Some cs \<Longrightarrow>
  wr h p i v = (if i < length cs then Some (h\<lparr>arrays := (arrays h)(p \<mapsto> cs[i := Some v])\<rparr>) else None)"
  by (simp add: wr_def)

lemma contains_loop_live:
  assumes "arrays h (data s) = Some cs" "nat (used s) \<le> length cs"
    and "\<forall>k<nat (used s). cs ! k \<noteq> None"
  shows "contains_loop h s v i = Some (v \<in> set (map the (drop i (take (nat (used s)) cs))))"
  using assms
proof (induction h s v i rule: contains_loop.induct)
  case (1 h s v i)
  show ?case
  proof (cases "int i < used s")
    case True
    then have i: "i < nat (used s)" by linarith
    with 1 obtain x where x: "cs ! i = Some x" by auto
    have len: "i < length (take (nat (used s)) cs)" using i 1 by simp
    have d: "drop i (take (nat (used s)) cs) = Some x # drop (Suc i) (take (nat (used s)) cs)"
      using Cons_nth_drop_Suc[OF len] x i by simp
    have r: "rd h (data s) i = Some x" using 1 i x by (simp add: rd_Some)
    show ?thesis
    proof (cases "x = v")
      case True
      then show ?thesis using \<open>int i < used s\<close> r d by (subst contains_loop.simps) simp
    next
      case False
      from "1.IH"[OF \<open>int i < used s\<close> r False "1.prems"]
      show ?thesis using \<open>int i < used s\<close> r d False by (subst contains_loop.simps) auto
    qed
  next
    case False
    then have "drop i (take (nat (used s)) cs) = []" by simp
    then show ?thesis using False by (subst contains_loop.simps) simp
  qed
qed

lemma IntSet_invD:
  assumes "IntSet_inv h s"
  obtains cs where "arrays h (data s) = Some cs" "data s < next_addr h"
    "int (length cs) = capacity s" "1 \<le> capacity s" "0 \<le> used s" "used s \<le> capacity s"
    "\<forall>k<nat (used s). cs ! k \<noteq> None" "distinct (take (nat (used s)) cs)"
    "live h s = map the (take (nat (used s)) cs)"
proof -
  from assms obtain cs where cs: "arrays h (data s) = Some cs"
    by (auto simp: IntSet_inv_def split: option.splits)
  with assms have a: "data s < next_addr h" "int (length cs) = capacity s" "1 \<le> capacity s" "0 \<le> used s" "used s \<le> capacity s"
    "list_all (\<lambda>c. c \<noteq> None) (take (nat (used s)) cs)" "distinct (take (nat (used s)) cs)"
    by (simp_all add: IntSet_inv_def)
  have "\<forall>k<nat (used s). cs ! k \<noteq> None"
  proof (intro allI impI)
    fix k assume k: "k < nat (used s)"
    then have "k < length (take (nat (used s)) cs)" using a by simp
    then have "take (nat (used s)) cs ! k \<noteq> None" using a(6) by (simp add: list_all_length)
    then show "cs ! k \<noteq> None" using k by simp
  qed
  moreover have "live h s = map the (take (nat (used s)) cs)" using cs by (simp add: live_def)
  ultimately show thesis using that cs a by blast
qed

lemma contains_live:
  assumes "IntSet_inv h s"
  shows "contains h s v = Some (v \<in> set (live h s))"
proof -
  from assms obtain cs where cs: "arrays h (data s) = Some cs"
    "int (length cs) = capacity s" "0 \<le> used s" "used s \<le> capacity s"
    "\<forall>k<nat (used s). cs ! k \<noteq> None" "live h s = map the (take (nat (used s)) cs)"
    by (rule IntSet_invD)
  have "nat (used s) \<le> length cs" using cs by linarith
  from contains_loop_live[OF cs(1) this cs(5), of v 0]
  show ?thesis using cs by (auto simp: contains_def)
qed

section \<open>The copying loop, the constructors and resize\<close>

lemma heap_upd_same: "arrays h p = Some cs \<Longrightarrow> h\<lparr>arrays := (arrays h)(p \<mapsto> cs)\<rparr> = h"
  by (simp add: fun_upd_idem)

lemma copy_loop_spec:
  assumes "src \<noteq> dst" "arrays h src = Some xs" "arrays h dst = Some ys"
    and "n \<le> length xs" "n \<le> length ys" "\<forall>k<n. xs ! k \<noteq> None" "i \<le> n"
  shows "copy_loop src dst (int n) i h =
         Some (h\<lparr>arrays := (arrays h)(dst \<mapsto> take i ys @ drop i (take n xs) @ drop n ys)\<rparr>)"
  using assms
proof (induction "n - i" arbitrary: i h ys)
  case 0
  then have "i = n" by simp
  then show ?case using 0 by (subst copy_loop.simps) (simp add: heap_upd_same)
next
  case (Suc k)
  then have i: "i < n" by linarith
  with Suc.prems obtain x where x: "xs ! i = Some x" by auto
  let ?h' = "h\<lparr>arrays := (arrays h)(dst \<mapsto> ys[i := Some x])\<rparr>"
  have r: "rd h src i = Some x" using Suc.prems i x by (simp add: rd_Some)
  have w: "wr h dst i x = Some ?h'" using Suc.prems i by (simp add: wr_Some)
  have k: "k = n - Suc i" using Suc.hyps by linarith
  have IH: "copy_loop src dst (int n) (Suc i) ?h' =
      Some (?h'\<lparr>arrays := (arrays ?h')(dst \<mapsto> take (Suc i) (ys[i := Some x]) @ drop (Suc i) (take n xs) @ drop n (ys[i := Some x]))\<rparr>)"
    using Suc.prems i by (intro Suc.hyps(1)[OF k]) auto
  have t: "take (Suc i) (ys[i := Some x]) = take i ys @ [Some x]"
    using Suc.prems i by (simp add: take_Suc_conv_app_nth)
  have d: "drop n (ys[i := Some x]) = drop n ys" using i by simp
  have len: "i < length (take n xs)" using i Suc.prems by simp
  have c: "drop i (take n xs) = Some x # drop (Suc i) (take n xs)"
    using Cons_nth_drop_Suc[OF len] x i by simp
  show ?case
    using i r w IH t d c by (subst copy_loop.simps) simp
qed

lemma copy_loop_fresh:
  assumes "src \<noteq> dst" "arrays h src = Some xs" "arrays h dst = Some (replicate c None)"
    and "n \<le> length xs" "n \<le> c" "\<forall>k<n. xs ! k \<noteq> None"
  shows "copy_loop src dst (int n) 0 h =
         Some (h\<lparr>arrays := (arrays h)(dst \<mapsto> take n xs @ replicate (c - n) None)\<rparr>)"
  using copy_loop_spec[OF assms(1,2,3,4) _ assms(6), of 0] assms(5) by simp

lemma IntSet_invI:
  assumes "arrays h (data s) = Some cs" "data s < next_addr h"
    "int (length cs) = capacity s" "1 \<le> capacity s" "0 \<le> used s" "used s \<le> capacity s"
    "\<forall>c\<in>set (take (nat (used s)) cs). c \<noteq> None" "distinct (take (nat (used s)) cs)"
  shows "IntSet_inv h s"
  using assms by (simp add: IntSet_inv_def list_all_iff)

lemma unchanged_but_refl: "unchanged_but p h h"
  by (simp add: unchanged_but_def)

lemma unchanged_but_trans:
  assumes "unchanged_but p h h1" "unchanged_but q h1 h2" "q = p \<or> next_addr h \<le> q"
  shows "unchanged_but p h h2"
  using assms unfolding unchanged_but_def
  by (metis (no_types, lifting) dual_order.strict_trans1 leD order.trans)

lemma unchanged_but_fresh:
  assumes "unchanged_but p h h1" "next_addr h \<le> p"
  shows "next_addr h \<le> next_addr h1" "\<And>q. q < next_addr h \<Longrightarrow> arrays h1 q = arrays h q"
  using assms unfolding unchanged_but_def by auto

lemma unchanged_but_keeps:
  assumes "unchanged_but p h h1" "IntSet_inv h t" "data t \<noteq> p"
  shows "IntSet_inv h1 t" "live h1 t = live h t" "arrays h1 (data t) = arrays h (data t)"
proof -
  from assms(2) have lt: "data t < next_addr h" by (rule IntSet_invD)
  with assms show a: "arrays h1 (data t) = arrays h (data t)" by (simp add: unchanged_but_def)
  from assms(1) lt have "data t < next_addr h1" by (simp add: unchanged_but_def)
  with a assms(2) show "IntSet_inv h1 t" by (simp add: IntSet_inv_def split: option.splits)
  from a show "live h1 t = live h t" by (simp add: live_def)
qed

lemma resize_spec:
  fixes nc :: int
  assumes inv: "IntSet_inv h s" and D: "1 \<le> D"
  defines "c' \<equiv> (let nc1 = (if nc < used s then used s else nc) in if nc1 < 1 then D else nc1)"
  shows "\<exists>h'. resize D nc (s, h) = Some (s\<lparr>data := next_addr h, capacity := c'\<rparr>, h') \<and>
          IntSet_inv h' (s\<lparr>data := next_addr h, capacity := c'\<rparr>) \<and>
          live h' (s\<lparr>data := next_addr h, capacity := c'\<rparr>) = live h s \<and>
          unchanged_but (data s) h h' \<and> next_addr h' = Suc (next_addr h) \<and> arrays h' (data s) = None"
proof -
  from inv obtain cs where cs: "arrays h (data s) = Some cs" "data s < next_addr h"
    "int (length cs) = capacity s" "1 \<le> capacity s" "0 \<le> used s" "used s \<le> capacity s"
    "\<forall>k<nat (used s). cs ! k \<noteq> None" "distinct (take (nat (used s)) cs)"
    "live h s = map the (take (nat (used s)) cs)"
    by (rule IntSet_invD)
  let ?n = "nat (used s)"
  let ?p = "next_addr h"
  have c': "1 \<le> c'" "used s \<le> c'" using D cs by (auto simp: c'_def Let_def)
  let ?h1 = "h\<lparr>arrays := (arrays h)(?p \<mapsto> replicate (nat c') None), next_addr := Suc ?p\<rparr>"
  have na: "new_array c' h = Some (?p, ?h1)" using c' by (simp add: new_array_def)
  have ne: "data s \<noteq> ?p" using cs by simp
  have un: "int ?n = used s" using cs by simp
  let ?new = "take ?n cs @ replicate (nat c' - ?n) None"
  let ?h2 = "?h1\<lparr>arrays := (arrays ?h1)(?p \<mapsto> ?new)\<rparr>"
  have "copy_loop (data s) ?p (int ?n) 0 ?h1 = Some ?h2"
    using cs c' ne by (intro copy_loop_fresh) auto
  then have cl: "copy_loop (data s) ?p (used s) 0 ?h1 = Some ?h2" using un by simp
  let ?h3 = "?h2\<lparr>arrays := (arrays ?h2)(data s := None)\<rparr>"
  have de: "delete_array (data s) ?h2 = Some ?h3" using cs ne by (simp add: delete_array_def)
  let ?s' = "s\<lparr>data := ?p, capacity := c'\<rparr>"
  have res: "resize D nc (s, h) = Some (?s', ?h3)"
    using na cl de by (simp add: resize_def c'_def Let_def)
  have arr: "arrays ?h3 ?p = Some ?new" using ne by simp
  have tk: "take ?n ?new = take ?n cs" using cs by simp
  have "IntSet_inv ?h3 ?s'"
  proof (rule IntSet_invI)
    show "arrays ?h3 (data ?s') = Some ?new" using arr by simp
    show "int (length ?new) = capacity ?s'" using cs c' by simp
    show "\<forall>c\<in>set (take (nat (used ?s')) ?new). c \<noteq> None"
      using tk cs(7) by (auto simp: in_set_conv_nth)
    show "distinct (take (nat (used ?s')) ?new)" using tk cs by simp
  qed (use cs c' in simp_all)
  moreover have "live ?h3 ?s' = live h s" using arr tk cs(9) by (simp add: live_def)
  moreover have "unchanged_but (data s) h ?h3" by (simp add: unchanged_but_def)
  ultimately show ?thesis using res by auto
qed

lemma ctor_spec:
  fixes ic :: int
  assumes D: "1 \<le> D"
  defines "c \<equiv> (if ic < 1 then D else ic)"
  shows "\<exists>h'. IntSet_ctor D ic h = Some (\<lparr>data = next_addr h, capacity = c, used = 0\<rparr>, h') \<and>
          IntSet_inv h' \<lparr>data = next_addr h, capacity = c, used = 0\<rparr> \<and>
          live h' \<lparr>data = next_addr h, capacity = c, used = 0\<rparr> = [] \<and>
          unchanged_but (next_addr h) h h'"
proof -
  have c: "1 \<le> c" using D by (simp add: c_def)
  let ?h1 = "h\<lparr>arrays := (arrays h)(next_addr h \<mapsto> replicate (nat c) None), next_addr := Suc (next_addr h)\<rparr>"
  have "IntSet_ctor D ic h = Some (\<lparr>data = next_addr h, capacity = c, used = 0\<rparr>, ?h1)"
    using c by (simp add: IntSet_ctor_def new_array_def c_def Let_def)
  moreover have "IntSet_inv ?h1 \<lparr>data = next_addr h, capacity = c, used = 0\<rparr>"
    using c by (simp add: IntSet_inv_def)
  moreover have "live ?h1 \<lparr>data = next_addr h, capacity = c, used = 0\<rparr> = []"
    by (simp add: live_def)
  moreover have "unchanged_but (next_addr h) h ?h1" by (simp add: unchanged_but_def)
  ultimately show ?thesis by blast
qed

lemma copy_spec:
  assumes inv: "IntSet_inv h s"
  shows "\<exists>h'. IntSet_copy s h = Some (s\<lparr>data := next_addr h\<rparr>, h') \<and>
          IntSet_inv h' (s\<lparr>data := next_addr h\<rparr>) \<and>
          live h' (s\<lparr>data := next_addr h\<rparr>) = live h s \<and>
          unchanged_but (next_addr h) h h'"
proof -
  from inv obtain cs where cs: "arrays h (data s) = Some cs" "data s < next_addr h"
    "int (length cs) = capacity s" "1 \<le> capacity s" "0 \<le> used s" "used s \<le> capacity s"
    "\<forall>k<nat (used s). cs ! k \<noteq> None" "distinct (take (nat (used s)) cs)"
    "live h s = map the (take (nat (used s)) cs)"
    by (rule IntSet_invD)
  let ?n = "nat (used s)"
  let ?p = "next_addr h"
  let ?c = "capacity s"
  let ?h1 = "h\<lparr>arrays := (arrays h)(?p \<mapsto> replicate (nat ?c) None), next_addr := Suc ?p\<rparr>"
  have na: "new_array ?c h = Some (?p, ?h1)" using cs by (simp add: new_array_def)
  have ne: "data s \<noteq> ?p" using cs by simp
  have un: "int ?n = used s" using cs by simp
  let ?new = "take ?n cs @ replicate (nat ?c - ?n) None"
  let ?h2 = "?h1\<lparr>arrays := (arrays ?h1)(?p \<mapsto> ?new)\<rparr>"
  have "copy_loop (data s) ?p (int ?n) 0 ?h1 = Some ?h2"
    using cs ne by (intro copy_loop_fresh) auto
  then have cl: "copy_loop (data s) ?p (used s) 0 ?h1 = Some ?h2" using un by simp
  let ?s' = "s\<lparr>data := ?p\<rparr>"
  have eq: "\<lparr>data = ?p, capacity = capacity s, used = used s\<rparr> = ?s'" by simp
  have res: "IntSet_copy s h = Some (?s', ?h2)"
    using na cl eq by (simp add: IntSet_copy_def)
  have arr: "arrays ?h2 ?p = Some ?new" by simp
  have tk: "take ?n ?new = take ?n cs" using cs by simp
  have "IntSet_inv ?h2 ?s'"
  proof (rule IntSet_invI)
    show "arrays ?h2 (data ?s') = Some ?new" using arr by simp
    show "int (length ?new) = capacity ?s'" using cs by simp
    show "\<forall>c\<in>set (take (nat (used ?s')) ?new). c \<noteq> None"
      using tk cs(7) by (auto simp: in_set_conv_nth)
    show "distinct (take (nat (used ?s')) ?new)" using tk cs by simp
  qed (use cs in simp_all)
  moreover have "live ?h2 ?s' = live h s" using arr tk cs(9) by (simp add: live_def)
  moreover have "unchanged_but ?p h ?h2" by (simp add: unchanged_but_def)
  ultimately show ?thesis using res by auto
qed

lemma push_back:
  assumes inv: "IntSet_inv h s" and room: "used s < capacity s" and new: "v \<notin> set (live h s)"
  shows "\<exists>h'. wr h (data s) (nat (used s)) v = Some h' \<and>
          IntSet_inv h' (s\<lparr>used := used s + 1\<rparr>) \<and>
          live h' (s\<lparr>used := used s + 1\<rparr>) = live h s @ [v] \<and>
          unchanged_but (data s) h h' \<and> next_addr h' = next_addr h"
proof -
  from inv obtain cs where cs: "arrays h (data s) = Some cs" "data s < next_addr h"
    "int (length cs) = capacity s" "1 \<le> capacity s" "0 \<le> used s" "used s \<le> capacity s"
    "\<forall>k<nat (used s). cs ! k \<noteq> None" "distinct (take (nat (used s)) cs)"
    "live h s = map the (take (nat (used s)) cs)"
    by (rule IntSet_invD)
  let ?n = "nat (used s)"
  have n: "?n < length cs" using cs room by linarith
  let ?new = "cs[?n := Some v]"
  let ?h' = "h\<lparr>arrays := (arrays h)(data s \<mapsto> ?new)\<rparr>"
  let ?s' = "s\<lparr>used := used s + 1\<rparr>"
  have w: "wr h (data s) ?n v = Some ?h'" using cs n by (simp add: wr_Some)
  have n': "nat (used ?s') = Suc ?n" using cs by simp
  have tk: "take (Suc ?n) ?new = take ?n cs @ [Some v]"
    using n by (simp add: take_Suc_conv_app_nth)
  have notin: "Some v \<notin> set (take ?n cs)"
  proof
    assume "Some v \<in> set (take ?n cs)"
    then have "the (Some v) \<in> the ` set (take ?n cs)" by (rule imageI)
    then show False using new cs(9) by simp
  qed
  have "IntSet_inv ?h' ?s'"
  proof (rule IntSet_invI)
    show "arrays ?h' (data ?s') = Some ?new" by simp
    show "int (length ?new) = capacity ?s'" using cs by simp
    show "\<forall>c\<in>set (take (nat (used ?s')) ?new). c \<noteq> None"
      unfolding n' tk using cs(7) by (auto simp: in_set_conv_nth)
    show "distinct (take (nat (used ?s')) ?new)" unfolding n' tk using cs(8) notin by simp
  qed (use cs room in simp_all)
  moreover have "live ?h' ?s' = live h s @ [v]"
    unfolding live_def n' using tk cs(1) by (simp del: take_Suc_Cons)
  moreover have "unchanged_but (data s) h ?h'" by (simp add: unchanged_but_def)
  ultimately show ?thesis using w by auto
qed

lemma add_member:
  assumes "IntSet_inv h s" "v \<in> set (live h s)"
  shows "add D v (s, h) = Some (False, s, h)"
  using assms by (simp add: add_def contains_live)

lemma floor_1_5: "\<lfloor>1.5 * real_of_int c\<rfloor> = (3 * c) div 2"
proof -
  have "1.5 * real_of_int c = real_of_int (3 * c) / real_of_int 2" by simp
  then show ?thesis by (simp only: floor_divide_of_int_eq)
qed

lemma int_of_double_1_5:
  assumes "0 \<le> c"
  shows "int_of_double (1.5 * real_of_int c) =
           (if (3 * c) div 2 \<le> INT_MAX then Some ((3 * c) div 2) else None)"
proof -
  have m: "INT_MIN \<le> (3 * c) div 2" using assms by (simp add: INT_MIN_def)
  show ?thesis unfolding int_of_double_def Let_def floor_1_5 using assms m by simp
qed

lemma growth_request_eq:
  assumes "0 \<le> c"
  shows "growth_request c = (if c \<le> 1431655764 then Some ((3 * c) div 2 + 1) else None)"
proof -
  have m: "INT_MIN \<le> (3 * c) div 2 + 1" using assms by (simp add: INT_MIN_def)
  show ?thesis
    unfolding growth_request_def int_of_double_1_5[OF assms] int_plus_def using m
    by (auto simp: INT_MAX_def)
qed

lemma growth_request_grows: "0 \<le> c \<Longrightarrow> c < (3 * c) div 2 + (1::int)"
  by simp

lemma can_take_mono: "can_take s k \<Longrightarrow> j \<le> k \<Longrightarrow> can_take s j"
  by (auto simp: can_take_def)

lemma can_take_eq: "used s' = used s \<Longrightarrow> capacity s' = capacity s \<Longrightarrow> can_take s' k = can_take s k"
  by (simp add: can_take_def)

lemma add_new:
  assumes inv: "IntSet_inv h s" and new: "v \<notin> set (live h s)" and ct: "can_take s 1"
  shows "\<exists>s' h'. add D v (s, h) = Some (True, s', h') \<and>
          IntSet_inv h' s' \<and> live h' s' = live h s @ [v] \<and> used s' = used s + 1 \<and>
          capacity s' = (if capacity s \<le> used s then (3 * capacity s) div 2 + 1 else capacity s) \<and>
          unchanged_but (data s) h h' \<and> (data s' = data s \<or> next_addr h \<le> data s') \<and>
          (\<forall>k. can_take s k \<longrightarrow> can_take s' (k - 1)) \<and>
          (used s < capacity s \<longrightarrow> data s' = data s)"
proof (cases "capacity s \<le> used s")
  case False
  then have room: "used s < capacity s" by simp
  from push_back[OF inv room new] obtain h' where h': "wr h (data s) (nat (used s)) v = Some h'"
    "IntSet_inv h' (s\<lparr>used := used s + 1\<rparr>)" "live h' (s\<lparr>used := used s + 1\<rparr>) = live h s @ [v]"
    "unchanged_but (data s) h h'" by blast
  have u: "0 \<le> used s" using inv by (rule IntSet_invD)
  have "used s + 1 \<le> INT_MAX" using ct by (auto simp: can_take_def INT_MAX_def)
  then have p: "int_plus (used s) 1 = Some (used s + 1)" using u by (simp add: int_plus_def INT_MIN_def)
  have "add D v (s, h) = Some (True, s\<lparr>used := used s + 1\<rparr>, h')"
    using inv new False h'(1) u p by (simp add: add_def contains_live)
  moreover have "\<forall>k. can_take s k \<longrightarrow> can_take (s\<lparr>used := used s + 1\<rparr>) (k - 1)"
    by (auto simp: can_take_def)
  ultimately show ?thesis using h' False by auto
next
  case True
  have facts: "0 \<le> used s" "used s \<le> capacity s" "1 \<le> capacity s" using inv by (rule IntSet_invD; simp)+
  have full: "used s = capacity s" using True facts by simp
  have small: "capacity s \<le> 1431655764" using ct full facts by (auto simp: can_take_def)
  let ?nc = "(3 * capacity s) div 2 + 1"
  have gr: "growth_request (capacity s) = Some ?nc" using growth_request_eq[of "capacity s"] small facts by simp
  have g: "capacity s < ?nc" using facts by (intro growth_request_grows) simp
  have c': "(let nc1 = (if ?nc < used s then used s else ?nc) in if nc1 < 1 then 1 else nc1) = ?nc"
    using g facts by (simp add: Let_def)
  let ?s1 = "s\<lparr>data := next_addr h, capacity := ?nc\<rparr>"
  from resize_spec[OF inv, of 1 ?nc] c' obtain h1 where h1: "resize 1 ?nc (s, h) = Some (?s1, h1)"
    "IntSet_inv h1 ?s1" "live h1 ?s1 = live h s" "unchanged_but (data s) h h1" "next_addr h1 = Suc (next_addr h)"
    by auto
  have rD: "resize D ?nc (s, h) = resize 1 ?nc (s, h)"
    using g facts by (simp add: resize_def Let_def)
  have room: "used ?s1 < capacity ?s1" using g facts by simp
  have new1: "v \<notin> set (live h1 ?s1)" using new h1 by simp
  from push_back[OF h1(2) room new1] obtain h2 where h2: "wr h1 (data ?s1) (nat (used ?s1)) v = Some h2"
    "IntSet_inv h2 (?s1\<lparr>used := used ?s1 + 1\<rparr>)" "live h2 (?s1\<lparr>used := used ?s1 + 1\<rparr>) = live h1 ?s1 @ [v]"
    "unchanged_but (data ?s1) h1 h2" by blast
  have p: "int_plus (used s) 1 = Some (used s + 1)"
    using small full facts by (simp add: int_plus_def INT_MIN_def INT_MAX_def)
  have "add D v (s, h) = Some (True, ?s1\<lparr>used := used ?s1 + 1\<rparr>, h2)"
    using inv new True h1(1) rD h2(1) facts gr p by (simp add: add_def contains_live)
  moreover have "unchanged_but (data s) h h2"
    using unchanged_but_trans[OF h1(4) h2(4)] by simp
  moreover have "\<forall>k. can_take s k \<longrightarrow> can_take (?s1\<lparr>used := used ?s1 + 1\<rparr>) (k - 1)"
    using g by (auto simp: can_take_def)
  ultimately show ?thesis using h2 h1 True by auto
qed


section \<open>The loops of remove\<close>

lemma distinct_take_nth:
  assumes "distinct (take n cs)" "n \<le> length cs" "a < n" "b < n" "a \<noteq> b"
  shows "cs ! a \<noteq> cs ! b"
  using nth_eq_iff_index_eq[of "take n cs" a b] assms by simp

lemma shift_loop_spec:
  assumes "arrays h p = Some cs" "u \<le> length cs" "\<forall>k<u. cs ! k \<noteq> None" "1 \<le> j" "j \<le> u"
  shows "shift_loop p (int u) j h =
         Some (h\<lparr>arrays := (arrays h)(p \<mapsto> take (j - 1) cs @ drop j (take u cs) @ drop (u - 1) cs)\<rparr>)"
  using assms
proof (induction "u - j" arbitrary: j h cs)
  case 0
  then have j: "j = u" by simp
  have "take (u - 1) cs @ drop (u - 1) cs = cs" by simp
  then show ?case using 0 j by (subst shift_loop.simps) (simp add: heap_upd_same)
next
  case (Suc d)
  then have j: "j < u" by linarith
  with Suc.prems obtain x where x: "cs ! j = Some x" by auto
  let ?cs' = "cs[j - 1 := Some x]"
  let ?h' = "h\<lparr>arrays := (arrays h)(p \<mapsto> ?cs')\<rparr>"
  have r: "rd h p j = Some x" using Suc.prems j x by (simp add: rd_Some)
  have w: "wr h p (j - 1) x = Some ?h'" using Suc.prems j by (simp add: wr_Some)
  have d: "d = u - Suc j" using Suc.hyps by linarith
  have all': "\<forall>k<u. ?cs' ! k \<noteq> None"
    using Suc.prems by (auto simp: nth_list_update)
  have IH: "shift_loop p (int u) (Suc j) ?h' =
      Some (?h'\<lparr>arrays := (arrays ?h')(p \<mapsto> take (Suc j - 1) ?cs' @ drop (Suc j) (take u ?cs') @ drop (u - 1) ?cs')\<rparr>)"
    using Suc.prems j all' by (intro Suc.hyps(1)[OF d]) auto
  have t: "take (Suc j - 1) ?cs' = take (j - 1) cs @ [Some x]"
  proof -
    from Suc.prems obtain j' where j': "j = Suc j'" by (cases j) auto
    have "j' < length cs" using Suc.prems j j' by simp
    then have "take (Suc j') (cs[j' := Some x]) = take j' cs @ [Some x]"
      by (simp add: take_Suc_conv_app_nth)
    then show ?thesis using j' by simp
  qed
  have d1: "drop (Suc j) (take u ?cs') = drop (Suc j) (take u cs)"
    by (simp add: take_update_swap)
  have d2: "drop (u - 1) ?cs' = drop (u - 1) cs" using j Suc.prems by simp
  have len: "j < length (take u cs)" using j Suc.prems by simp
  have c: "drop j (take u cs) = Some x # drop (Suc j) (take u cs)"
    using Cons_nth_drop_Suc[OF len] x j by simp
  show ?case
    using j r w IH t d1 d2 c by (subst shift_loop.simps) simp
qed

lemma remove_loop_none:
  assumes "arrays h (data s) = Some cs" "nat (used s) \<le> length cs"
    "\<forall>k<nat (used s). cs ! k \<noteq> None"
    "\<forall>m. i \<le> m \<and> m < nat (used s) \<longrightarrow> cs ! m \<noteq> Some v"
  shows "remove_loop s v i h = Some h"
  using assms
proof (induction "nat (used s) - i" arbitrary: i)
  case 0
  then have "\<not> int i < used s" by linarith
  then show ?case by (subst remove_loop.simps) simp
next
  case (Suc d)
  then have i: "i < nat (used s)" by linarith
  with Suc.prems obtain x where x: "cs ! i = Some x" by auto
  have xv: "x \<noteq> v" using Suc.prems(4) i x by auto
  have r: "rd h (data s) i = Some x" using Suc.prems i x by (simp add: rd_Some)
  have "remove_loop s v (Suc i) h = Some h"
    using Suc.prems Suc.hyps(2) by (intro Suc.hyps(1)) auto
  then show ?case using i r xv by (subst remove_loop.simps) simp
qed

lemma remove_loop_found:
  assumes "arrays h (data s) = Some cs" "nat (used s) \<le> length cs"
    "\<forall>k<nat (used s). cs ! k \<noteq> None" "distinct (take (nat (used s)) cs)"
    "i \<le> k" "k < nat (used s)" "cs ! k = Some v"
  shows "remove_loop s v i h =
         Some (h\<lparr>arrays := (arrays h)(data s \<mapsto>
                 take k cs @ drop (Suc k) (take (nat (used s)) cs) @ drop (nat (used s) - 1) cs)\<rparr>)"
  using assms
proof (induction "k - i" arbitrary: i)
  case 0
  let ?n = "nat (used s)"
  from 0 have ik: "i = k" by simp
  let ?cs' = "take k cs @ drop (Suc k) (take ?n cs) @ drop (?n - 1) cs"
  let ?h' = "h\<lparr>arrays := (arrays h)(data s \<mapsto> ?cs')\<rparr>"
  have un: "int ?n = used s" using 0 by simp
  have "shift_loop (data s) (int ?n) (Suc k) h = Some ?h'"
    using shift_loop_spec[OF 0(2,3,4), of "Suc k"] 0 by simp
  then have sh: "shift_loop (data s) (used s) (Suc k) h = Some ?h'" using un by simp
  have r: "rd h (data s) k = Some v" using 0 by (simp add: rd_Some)
  have len': "length ?cs' = length cs" using 0 by simp
  have nth': "?cs' ! m = (if m < ?n - 1 then cs ! Suc m else cs ! m)" if "k \<le> m" "m < ?n" for m
  proof (cases "m < ?n - 1")
    case True
    then show ?thesis using that 0 by (auto simp: nth_append)
  next
    case False
    then have "m = ?n - 1" using that by linarith
    then show ?thesis using that 0 by (auto simp: nth_append)
  qed
  have dist: "cs ! a \<noteq> cs ! b" if "a < ?n" "b < ?n" "a \<noteq> b" for a b
    using distinct_take_nth[OF 0(5,3) that] .
  have rest: "remove_loop s v (Suc k) ?h' = Some ?h'"
  proof (rule remove_loop_none)
    show "arrays ?h' (data s) = Some ?cs'" by simp
    show "?n \<le> length ?cs'" using len' 0 by simp
    show "\<forall>j<?n. ?cs' ! j \<noteq> None"
    proof (intro allI impI)
      fix j assume j: "j < ?n"
      show "?cs' ! j \<noteq> None"
      proof (cases "j < k")
        case True then show ?thesis using 0 j by (simp add: nth_append)
      next
        case False then show ?thesis using nth'[of j] j 0(4) by auto
      qed
    qed
    show "\<forall>m. Suc k \<le> m \<and> m < ?n \<longrightarrow> ?cs' ! m \<noteq> Some v"
    proof (intro allI impI)
      fix m assume m: "Suc k \<le> m \<and> m < ?n"
      then have "?cs' ! m = (if m < ?n - 1 then cs ! Suc m else cs ! m)" by (intro nth') auto
      moreover have "cs ! Suc m \<noteq> cs ! k" if "m < ?n - 1" using that m 0 by (intro dist) auto
      moreover have "cs ! m \<noteq> cs ! k" using m 0 by (intro dist) auto
      ultimately show "?cs' ! m \<noteq> Some v" using 0 by auto
    qed
  qed
  show ?case
    unfolding ik using 0(7) r sh rest by (subst remove_loop.simps) simp
next
  case (Suc d)
  let ?n = "nat (used s)"
  from Suc have i: "i < k" by linarith
  then have i': "i < ?n" using Suc.prems by linarith
  from Suc.prems(3) i' obtain x where x: "cs ! i = Some x" by auto
  have "i \<noteq> k" using i by simp
  from distinct_take_nth[OF Suc.prems(4,2) i' Suc.prems(6) this]
  have "cs ! i \<noteq> cs ! k" .
  then have xv: "x \<noteq> v" using x Suc.prems by auto
  have r: "rd h (data s) i = Some x" using Suc.prems i' x by (simp add: rd_Some)
  have IH: "remove_loop s v (Suc i) h =
         Some (h\<lparr>arrays := (arrays h)(data s \<mapsto>
                 take k cs @ drop (Suc k) (take ?n cs) @ drop (?n - 1) cs)\<rparr>)"
    using Suc.prems Suc.hyps(2) i by (intro Suc.hyps(1)) auto
  show ?case using i' r xv IH by (subst remove_loop.simps) simp
qed

lemma IntSet_inv_live:
  assumes "IntSet_inv h s"
  obtains cs where "arrays h (data s) = Some cs" "take (nat (used s)) cs = map Some (live h s)"
    "length (live h s) = nat (used s)" "distinct (live h s)" "nat (used s) \<le> length cs"
proof -
  from assms obtain cs where cs: "arrays h (data s) = Some cs" "data s < next_addr h"
    "int (length cs) = capacity s" "1 \<le> capacity s" "0 \<le> used s" "used s \<le> capacity s"
    "\<forall>k<nat (used s). cs ! k \<noteq> None" "distinct (take (nat (used s)) cs)"
    "live h s = map the (take (nat (used s)) cs)"
    by (rule IntSet_invD)
  have le: "nat (used s) \<le> length cs" using cs by linarith
  have "map Some (live h s) = take (nat (used s)) cs"
    unfolding cs(9) using cs(7) le by (intro nth_equalityI) auto
  then have t: "take (nat (used s)) cs = map Some (live h s)" by simp
  have l: "length (live h s) = nat (used s)" unfolding cs(9) using le by simp
  have "distinct (map Some (live h s))" using cs(8) t by simp
  then have "distinct (live h s)" by (simp add: distinct_map)
  then show thesis using that cs(1) t l le by blast
qed

lemma live_eq: "arrays h (data s) = Some cs \<Longrightarrow> live h s = map the (take (nat (used s)) cs)"
  by (simp add: live_def)

lemma remove1_nth:
  assumes "distinct L" "k < length L"
  shows "remove1 (L ! k) L = take k L @ drop (Suc k) L"
proof -
  have L: "L = take k L @ L ! k # drop (Suc k) L" using assms by (simp add: id_take_nth_drop)
  then have "distinct (take k L @ L ! k # drop (Suc k) L)" using assms by simp
  then have "L ! k \<notin> set (take k L)" by simp
  then have "remove1 (L ! k) (take k L @ L ! k # drop (Suc k) L) = take k L @ drop (Suc k) L"
    by (simp add: remove1_append)
  then show ?thesis using L by simp
qed

lemma remove_nonmember:
  assumes "IntSet_inv h s" "v \<notin> set (live h s)"
  shows "remove v (s, h) = Some (False, s, h)"
  using assms by (simp add: remove_def contains_live)

lemma remove_member:
  assumes inv: "IntSet_inv h s" and mem: "v \<in> set (live h s)"
  shows "\<exists>h' k. remove v (s, h) = Some (True, s\<lparr>used := used s - 1\<rparr>, h') \<and>
          IntSet_inv h' (s\<lparr>used := used s - 1\<rparr>) \<and>
          k < length (live h s) \<and> live h s ! k = v \<and>
          live h' (s\<lparr>used := used s - 1\<rparr>) = take k (live h s) @ drop (Suc k) (live h s) \<and>
          unchanged_but (data s) h h' \<and> next_addr h' = next_addr h"
proof -
  from inv obtain cs where cs: "arrays h (data s) = Some cs" "data s < next_addr h"
    "int (length cs) = capacity s" "1 \<le> capacity s" "0 \<le> used s" "used s \<le> capacity s"
    "\<forall>k<nat (used s). cs ! k \<noteq> None" "distinct (take (nat (used s)) cs)"
    by (rule IntSet_invD)
  from inv obtain cs' where "arrays h (data s) = Some cs'" and L': "take (nat (used s)) cs' = map Some (live h s)"
    "length (live h s) = nat (used s)" "distinct (live h s)" "nat (used s) \<le> length cs'"
    by (rule IntSet_inv_live)
  with cs(1) have L: "take (nat (used s)) cs = map Some (live h s)" "nat (used s) \<le> length cs" by simp_all
  let ?n = "nat (used s)"
  let ?L = "live h s"
  from mem obtain k where k: "k < length ?L" "?L ! k = v" by (auto simp: in_set_conv_nth)
  then have kn: "k < ?n" using L' by simp
  have "take ?n cs ! k = Some v" using L k by simp
  then have ck: "cs ! k = Some v" using kn by simp
  let ?cs' = "take k cs @ drop (Suc k) (take ?n cs) @ drop (?n - 1) cs"
  let ?h' = "h\<lparr>arrays := (arrays h)(data s \<mapsto> ?cs')\<rparr>"
  let ?s' = "s\<lparr>used := used s - 1\<rparr>"
  have rl: "remove_loop s v 0 h = Some ?h'"
    using cs(1) L(2) cs(7,8) _ kn ck by (rule remove_loop_found) simp
  have res: "remove v (s, h) = Some (True, ?s', ?h')"
    using inv mem rl by (simp add: remove_def contains_live)
  have n': "nat (used ?s') = ?n - 1" by simp
  have tkk: "take k cs = take k (take ?n cs)" using kn by (simp add: min_def)
  have tk: "take (?n - 1) ?cs' = map Some (take k ?L @ drop (Suc k) ?L)"
    unfolding tkk L using kn L' by (simp add: take_map drop_map)
  have dis: "distinct (take k ?L @ drop (Suc k) ?L)"
    using remove1_nth[OF L'(3) k(1)] L'(3) by (metis distinct_remove1)
  have "IntSet_inv ?h' ?s'"
  proof (rule IntSet_invI)
    show "arrays ?h' (data ?s') = Some ?cs'" by simp
    show "int (length ?cs') = capacity ?s'" using cs kn L(2) by simp
    show "\<forall>c\<in>set (take (nat (used ?s')) ?cs'). c \<noteq> None" unfolding n' tk by auto
    show "distinct (take (nat (used ?s')) ?cs')" unfolding n' tk using dis
      by (simp only: distinct_map) simp
    show "0 \<le> used ?s'" using kn by simp
  qed (use cs in simp_all)
  moreover have "live ?h' ?s' = take k ?L @ drop (Suc k) ?L"
  proof -
    have "live ?h' ?s' = map the (take (nat (used ?s')) ?cs')" by (rule live_eq) simp
    also have "\<dots> = map the (map Some (take k ?L @ drop (Suc k) ?L))" unfolding n' tk ..
    also have "\<dots> = take k ?L @ drop (Suc k) ?L" by (simp add: comp_def)
    finally show ?thesis .
  qed
  moreover have "unchanged_but (data s) h ?h'" by (simp add: unchanged_but_def)
  ultimately show ?thesis using res k by auto
qed

section \<open>Membership, insertion and removal on the list of members\<close>

lemma rd_live:
  assumes "IntSet_inv h s" "i < nat (used s)"
  shows "rd h (data s) i = Some (live h s ! i)"
proof -
  from assms(1) obtain cs where cs: "arrays h (data s) = Some cs" "take (nat (used s)) cs = map Some (live h s)"
    "length (live h s) = nat (used s)" "distinct (live h s)" "nat (used s) \<le> length cs"
    by (rule IntSet_inv_live)
  have "cs ! i = take (nat (used s)) cs ! i" using assms(2) by simp
  also have "\<dots> = Some (live h s ! i)" unfolding cs(2) using assms(2) cs(3) by simp
  finally show ?thesis using cs(1,5) assms(2) by (simp add: rd_Some)
qed

lemma live_length: "IntSet_inv h s \<Longrightarrow> length (live h s) = nat (used s)"
  by (erule IntSet_inv_live)

lemma live_distinct: "IntSet_inv h s \<Longrightarrow> distinct (live h s)"
  by (erule IntSet_inv_live)


lemma add_any:
  assumes inv: "IntSet_inv h s" and ct: "v \<in> set (live h s) \<or> can_take s 1"
  shows "\<exists>b s' h'. add D v (s, h) = Some (b, s', h') \<and> IntSet_inv h' s' \<and>
          live h' s' = live h s @ filter (\<lambda>x. x \<notin> set (live h s)) [v] \<and>
          unchanged_but (data s) h h' \<and> (data s' = data s \<or> next_addr h \<le> data s') \<and>
          (\<forall>k. can_take s k \<longrightarrow> can_take s' (k - (if v \<in> set (live h s) then 0 else 1)))"
proof (cases "v \<in> set (live h s)")
  case True
  then show ?thesis using add_member[OF inv True, of D]
    by (intro exI[of _ False] exI[of _ s] exI[of _ h]) (simp add: unchanged_but_refl inv)
next
  case False
  with ct have c1: "can_take s 1" by simp
  from add_new[OF inv False c1, of D] show ?thesis using False by auto
qed

lemma isSubsetOf_loop_spec:
  assumes "IntSet_inv h s" "IntSet_inv h t"
  shows "isSubsetOf_loop h s t i = Some (set (drop i (live h s)) \<subseteq> set (live h t))"
  using assms
proof (induction "nat (used s) - i" arbitrary: i)
  case 0
  then have "\<not> int i < size_IntSet s" "drop i (live h s) = []"
    by (simp_all add: size_IntSet_def live_length)
  then show ?case by (subst isSubsetOf_loop.simps) simp
next
  case (Suc d)
  then have i: "i < nat (used s)" by linarith
  then have lt: "int i < size_IntSet s" by (simp add: size_IntSet_def)
  let ?x = "live h s ! i"
  have r: "rd h (data s) i = Some ?x" using rd_live[OF Suc.prems(1) i] .
  have c: "contains h t ?x = Some (?x \<in> set (live h t))" using Suc.prems by (simp add: contains_live)
  have dr: "drop i (live h s) = ?x # drop (Suc i) (live h s)"
    using i Suc.prems by (simp add: Cons_nth_drop_Suc live_length)
  have IH: "isSubsetOf_loop h s t (Suc i) = Some (set (drop (Suc i) (live h s)) \<subseteq> set (live h t))"
    using Suc.hyps(2) Suc.prems by (intro Suc.hyps(1)) auto
  show ?case using lt r c IH dr by (subst isSubsetOf_loop.simps) auto
qed

lemma isSubsetOf_spec:
  assumes "IntSet_inv h s" "IntSet_inv h t"
  shows "isSubsetOf h s t = Some (set (live h s) \<subseteq> set (live h t))"
proof (cases "isEmpty s")
  case True
  then have "live h s = []" using live_length[OF assms(1)] by (simp add: isEmpty_def)
  then show ?thesis using True by (simp add: isSubsetOf_def)
next
  case False
  then show ?thesis using isSubsetOf_loop_spec[OF assms, of 0] by (simp add: isSubsetOf_def)
qed

section \<open>The loops of the derived operations\<close>

lemma live_nth_drop:
  assumes "IntSet_inv h s" "i < nat (used s)"
  shows "drop i (live h s) = live h s ! i # drop (Suc i) (live h s)"
  using assms by (simp add: Cons_nth_drop_Suc live_length)

lemma unionWith_loop_spec:
  assumes "IntSet_inv h u" "IntSet_inv h t" "data t \<noteq> data u"
    and "can_take u (int (length (filter (\<lambda>x. x \<notin> set (live h u)) (drop i (live h t)))))"
  shows "\<exists>u' h'. unionWith_loop D t i u h = Some (u', h') \<and> IntSet_inv h' u' \<and>
          live h' u' = live h u @ filter (\<lambda>x. x \<notin> set (live h u)) (drop i (live h t)) \<and>
          unchanged_but (data u) h h' \<and> (data u' = data u \<or> next_addr h \<le> data u')"
  using assms
proof (induction "nat (used t) - i" arbitrary: i u h)
  case 0
  then have "\<not> int i < size_IntSet t" "drop i (live h t) = []"
    by (simp_all add: size_IntSet_def live_length)
  then show ?case using 0 by (subst unionWith_loop.simps) (simp add: unchanged_but_refl)
next
  case (Suc d)
  then have i: "i < nat (used t)" by linarith
  then have lt: "int i < size_IntSet t" by (simp add: size_IntSet_def)
  let ?x = "live h t ! i"
  have r: "rd h (data t) i = Some ?x" using rd_live[OF Suc.prems(2) i] .
  have c: "contains h u ?x = Some (?x \<in> set (live h u))" using Suc.prems by (simp add: contains_live)
  have dr: "drop i (live h t) = ?x # drop (Suc i) (live h t)"
    using live_nth_drop[OF Suc.prems(2) i] .
  have xn: "?x \<notin> set (drop (Suc i) (live h t))"
    using live_distinct[OF Suc.prems(2)] i live_length[OF Suc.prems(2)]
    by (metis Cons_nth_drop_Suc distinct.simps(2) distinct_drop)
  let ?K = "int (length (filter (\<lambda>x. x \<notin> set (live h u)) (drop i (live h t))))"
  let ?K' = "int (length (filter (\<lambda>x. x \<notin> set (live h u)) (drop (Suc i) (live h t))))"
  have K: "?K = ?K' + (if ?x \<in> set (live h u) then 0 else 1)" unfolding dr by simp
  have ctx: "?x \<in> set (live h u) \<or> can_take u 1"
  proof (cases "?x \<in> set (live h u)")
    case False
    then have "1 \<le> ?K" using K by simp
    then show ?thesis using can_take_mono[OF Suc.prems(4)] by blast
  qed simp
  from add_any[OF Suc.prems(1) ctx, of D] obtain b u1 h1 where a: "add D ?x (u, h) = Some (b, u1, h1)"
    "IntSet_inv h1 u1" "live h1 u1 = live h u @ filter (\<lambda>x. x \<notin> set (live h u)) [?x]"
    "unchanged_but (data u) h h1" "data u1 = data u \<or> next_addr h \<le> data u1"
    "\<forall>k. can_take u k \<longrightarrow> can_take u1 (k - (if ?x \<in> set (live h u) then 0 else 1))" by blast
  have tl: "data t < next_addr h" using Suc.prems(2) by (rule IntSet_invD)
  have k: "IntSet_inv h1 t" "live h1 t = live h t"
    using unchanged_but_keeps[OF a(4) Suc.prems(2,3)] by simp_all
  have fl: "filter (\<lambda>x. x \<notin> set (live h1 u1)) (drop (Suc i) (live h t))
        = filter (\<lambda>x. x \<notin> set (live h u)) (drop (Suc i) (live h t))"
    unfolding a(3) using xn by (intro filter_cong) auto
  have "can_take u1 ?K'" using a(6) Suc.prems(4) K by auto
  then have ct1: "can_take u1 (int (length (filter (\<lambda>x. x \<notin> set (live h1 u1)) (drop (Suc i) (live h1 t)))))"
    unfolding k(2) fl .
  have ne1: "data t \<noteq> data u1" using a(5) Suc.prems(3) tl by auto
  have step: "(if \<not> (?x \<in> set (live h u))
                then do { y \<leftarrow> rd h (data t) i; (b, r) \<leftarrow> add D y (u, h); Some r }
                else Some (u, h)) = Some (u1, h1)"
  proof (cases "?x \<in> set (live h u)")
    case True
    then show ?thesis using a(1) add_member[OF Suc.prems(1) True, of D] by simp
  next
    case False
    then show ?thesis using r a(1) by simp
  qed
  have d: "d = nat (used t) - Suc i" using Suc.hyps(2) by linarith
  from Suc.hyps(1)[OF d a(2) k(1) ne1 ct1] obtain u' h' where
    IH: "unionWith_loop D t (Suc i) u1 h1 = Some (u', h')" "IntSet_inv h' u'"
    "live h' u' = live h1 u1 @ filter (\<lambda>x. x \<notin> set (live h1 u1)) (drop (Suc i) (live h1 t))"
    "unchanged_but (data u1) h1 h'" "data u' = data u1 \<or> next_addr h1 \<le> data u'" by blast
  have res: "unionWith_loop D t i u h = Some (u', h')"
    using lt r c step IH(1) by (subst unionWith_loop.simps) simp
  have fr: "unchanged_but (data u) h h'" using unchanged_but_trans[OF a(4) IH(4) a(5)] .
  have nx: "next_addr h \<le> next_addr h1" using a(4) by (simp add: unchanged_but_def)
  have da: "data u' = data u \<or> next_addr h \<le> data u'" using IH(5) a(5) nx by auto
  have lv: "live h' u' = live h u @ filter (\<lambda>x. x \<notin> set (live h u)) (drop i (live h t))"
  proof (cases "?x \<in> set (live h u)")
    case True
    then show ?thesis unfolding IH(3) a(3) k(2) dr by simp
  next
    case False
    have "filter (\<lambda>x. x \<notin> set (live h u @ [?x])) (drop (Suc i) (live h t))
        = filter (\<lambda>x. x \<notin> set (live h u)) (drop (Suc i) (live h t))"
      using xn by (intro filter_cong) auto
    then show ?thesis unfolding IH(3) a(3) k(2) dr using False by simp
  qed
  show ?case using res IH(2) lv fr da by blast
qed




lemma copy_then:
  assumes "IntSet_inv h s" "IntSet_inv h t"
  obtains c h1 where "IntSet_copy s h = Some (c, h1)" "IntSet_inv h1 c" "live h1 c = live h s"
    "data c = next_addr h" "unchanged_but (next_addr h) h h1"
    "IntSet_inv h1 s" "live h1 s = live h s" "IntSet_inv h1 t" "live h1 t = live h t"
    "data s \<noteq> data c" "data t \<noteq> data c" "used c = used s" "capacity c = capacity s"
proof -
  from copy_spec[OF assms(1)] obtain h1 where c: "IntSet_copy s h = Some (s\<lparr>data := next_addr h\<rparr>, h1)"
    "IntSet_inv h1 (s\<lparr>data := next_addr h\<rparr>)" "live h1 (s\<lparr>data := next_addr h\<rparr>) = live h s"
    "unchanged_but (next_addr h) h h1" by blast
  have ls: "data s < next_addr h" using assms(1) by (rule IntSet_invD)
  have lt: "data t < next_addr h" using assms(2) by (rule IntSet_invD)
  have ks: "IntSet_inv h1 s" "live h1 s = live h s"
    using unchanged_but_keeps[OF c(4) assms(1)] ls by simp_all
  have kt: "IntSet_inv h1 t" "live h1 t = live h t"
    using unchanged_but_keeps[OF c(4) assms(2)] lt by simp_all
  show thesis
    using that[OF c(1,2,3) _ c(4) ks kt] ls lt by simp
qed

lemma unionWith_spec:
  assumes "IntSet_inv h s" "IntSet_inv h t"
    and "can_take s (int (length (filter (\<lambda>x. x \<notin> set (live h s)) (live h t))))"
  shows "\<exists>u h'. unionWith D s t h = Some (u, h') \<and> IntSet_inv h' u \<and>
          live h' u = live h s @ filter (\<lambda>x. x \<notin> set (live h s)) (live h t) \<and>
          unchanged_but (next_addr h) h h' \<and> next_addr h \<le> data u"
proof -
  obtain c h1 where c: "IntSet_copy s h = Some (c, h1)" "IntSet_inv h1 c" "live h1 c = live h s"
    "data c = next_addr h" "unchanged_but (next_addr h) h h1"
    "IntSet_inv h1 s" "live h1 s = live h s" "IntSet_inv h1 t" "live h1 t = live h t"
    "data s \<noteq> data c" "data t \<noteq> data c" "used c = used s" "capacity c = capacity s"
    using assms(1,2) by (rule copy_then)
  have "can_take c (int (length (filter (\<lambda>x. x \<notin> set (live h s)) (live h t))))"
    using assms(3) can_take_eq[OF c(12,13)] by simp
  then have ct: "can_take c (int (length (filter (\<lambda>x. x \<notin> set (live h1 c)) (drop 0 (live h1 t)))))"
    unfolding c(3,9) by simp
  from unionWith_loop_spec[OF c(2) c(8) c(11) ct, of D] obtain u h' where
    l: "unionWith_loop D t 0 c h1 = Some (u, h')" "IntSet_inv h' u"
       "live h' u = live h1 c @ filter (\<lambda>x. x \<notin> set (live h1 c)) (drop 0 (live h1 t))"
       "unchanged_but (data c) h1 h'" "data u = data c \<or> next_addr h1 \<le> data u" by blast
  have "unionWith D s t h = Some (u, h')" using c(1) l(1) by (simp add: unionWith_def)
  moreover have "unchanged_but (next_addr h) h h'"
    using unchanged_but_trans[OF c(5) l(4)] c(4) by simp
  moreover have "next_addr h \<le> data u" using l(5) c(4,5) by (auto simp: unchanged_but_def)
  ultimately show ?thesis using l(2,3) c(3,9) by simp
qed



lemma unchanged_fresh_keeps:
  assumes "unchanged_but (next_addr h) h h'" "IntSet_inv h t"
  shows "IntSet_inv h' t" "live h' t = live h t" "arrays h' (data t) = arrays h (data t)"
proof -
  have "data t < next_addr h" using assms(2) by (rule IntSet_invD)
  then have "data t \<noteq> next_addr h" by simp
  from unchanged_but_keeps[OF assms this]
  show "IntSet_inv h' t" "live h' t = live h t" "arrays h' (data t) = arrays h (data t)" .
qed

section \<open>DumpData, equality and repeated insertion\<close>

lemma DumpData_loop_spec:
  assumes "IntSet_inv h s"
  shows "DumpData_loop h s i out = Some (out @ concat (map (\<lambda>y. ''  '' @ show_int y) (drop i (live h s))))"
  using assms
proof (induction "nat (used s) - i" arbitrary: i out)
  case 0
  then have "\<not> int i < used s" "drop i (live h s) = []"
    by (simp_all add: live_length)
  then show ?case by (subst DumpData_loop.simps) simp
next
  case (Suc d)
  then have i: "i < nat (used s)" by linarith
  have r: "rd h (data s) i = Some (live h s ! i)" using rd_live[OF Suc.prems(1) i] .
  have dr: "drop i (live h s) = live h s ! i # drop (Suc i) (live h s)"
    using live_nth_drop[OF Suc.prems(1) i] .
  have d: "d = nat (used s) - Suc i" using Suc.hyps(2) by linarith
  show ?case using i r Suc.hyps(1)[OF d Suc.prems] unfolding dr
    by (subst DumpData_loop.simps) simp
qed

lemma DumpData_spec:
  assumes "IntSet_inv h s"
  shows "DumpData h s out = Some (out @ dump_list (live h s))"
proof (cases "used s > 0")
  case False
  then have "live h s = []" using live_length[OF assms] by simp
  then show ?thesis using False by (simp add: DumpData_def)
next
  case True
  then have i: "0 < nat (used s)" by simp
  have r: "rd h (data s) 0 = Some (live h s ! 0)" using rd_live[OF assms i] .
  have dr: "live h s = live h s ! 0 # drop (Suc 0) (live h s)"
    using live_nth_drop[OF assms i] by simp
  have "dump_list (live h s) = show_int (live h s ! 0) @ concat (map (\<lambda>y. ''  '' @ show_int y) (drop (Suc 0) (live h s)))"
    by (subst dr) simp
  then show ?thesis using True r DumpData_loop_spec[OF assms, of 1] by (simp add: DumpData_def)
qed

lemma operator_eq_spec:
  assumes "IntSet_inv h a" "IntSet_inv h b"
  shows "operator_eq h a b = Some (set (live h a) = set (live h b))"
  using isSubsetOf_spec[OF assms] isSubsetOf_spec[OF assms(2,1)]
  by (auto simp: operator_eq_def)

lemma add_all_spec:
  assumes "IntSet_inv h s" "distinct vs" "set vs \<inter> set (live h s) = {}"
    and "can_take s (int (length vs))"
  shows "\<exists>s' h'. add_all D vs (s, h) = Some (s', h') \<and> IntSet_inv h' s' \<and>
          live h' s' = live h s @ vs \<and> used s' = used s + int (length vs) \<and>
          unchanged_but (data s) h h' \<and> (data s' = data s \<or> next_addr h \<le> data s')"
  using assms
proof (induction vs arbitrary: s h)
  case Nil
  then show ?case by (simp add: unchanged_but_refl)
next
  case (Cons v vs)
  then have new: "v \<notin> set (live h s)" by simp
  have c1: "can_take s 1" using can_take_mono[OF Cons.prems(4), of 1] by simp
  from add_new[OF Cons.prems(1) new c1, of D] obtain s1 h1 where a: "add D v (s, h) = Some (True, s1, h1)"
    "IntSet_inv h1 s1" "live h1 s1 = live h s @ [v]" "used s1 = used s + 1"
    "unchanged_but (data s) h h1" "data s1 = data s \<or> next_addr h \<le> data s1"
    "\<forall>k. can_take s k \<longrightarrow> can_take s1 (k - 1)" by blast
  have dj: "set vs \<inter> set (live h1 s1) = {}" using Cons.prems a(3) by auto
  have dv: "distinct vs" using Cons.prems by simp
  have cv: "can_take s1 (int (length vs))" using a(7) Cons.prems(4) by auto
  from Cons.IH[OF a(2) dv dj cv] obtain s' h' where
    IH: "add_all D vs (s1, h1) = Some (s', h')" "IntSet_inv h' s'"
    "live h' s' = live h1 s1 @ vs" "used s' = used s1 + int (length vs)"
    "unchanged_but (data s1) h1 h'" "data s' = data s1 \<or> next_addr h1 \<le> data s'" by blast
  have "add_all D (v # vs) (s, h) = Some (s', h')" using a(1) IH(1) by simp
  moreover have "unchanged_but (data s) h h'" using unchanged_but_trans[OF a(5) IH(5) a(6)] .
  moreover have "next_addr h \<le> next_addr h1" using a(5) by (simp add: unchanged_but_def)
  then have "data s' = data s \<or> next_addr h \<le> data s'" using IH(6) a(6) by auto
  ultimately show ?case using IH(2,3,4) a(3,4) by auto
qed


section \<open>The example store\<close>

lemma ex_A_inv: "IntSet_inv ex_heap ex_A"
  by (simp add: IntSet_inv_def ex_heap_def ex_A_def)

lemma ex_B_inv: "IntSet_inv ex_heap ex_B"
  by (simp add: IntSet_inv_def ex_heap_def ex_B_def)

lemma ex_A_live: "live ex_heap ex_A = [1, 2, 3]"
  by (simp add: live_def ex_heap_def ex_A_def)

lemma ex_B_live: "live ex_heap ex_B = [2, 3, 4]"
  by (simp add: live_def ex_heap_def ex_B_def)

lemma ex_can_take: "can_take ex_A 1" "can_take ex_B 1" "can_take ex_A 3"
  by (simp_all add: can_take_def ex_A_def ex_B_def)








section \<open>Construction followed by insertions, and assignment\<close>

lemma build_set:
  assumes "1 \<le> D" "distinct vs" "int (length vs) \<le> 1431655765"
  shows "\<exists>s0 h0 s h'. IntSet_ctor D ic h = Some (s0, h0) \<and> add_all D vs (s0, h0) = Some (s, h') \<and>
           capacity s0 = (if ic < 1 then D else ic) \<and> used s0 = 0 \<and> IntSet_inv h0 s0 \<and>
           IntSet_inv h' s \<and> live h' s = vs \<and> used s = int (length vs) \<and>
           unchanged_but (next_addr h) h h' \<and> next_addr h \<le> data s"
proof -
  let ?s0 = "\<lparr>data = next_addr h, capacity = (if ic < 1 then D else ic), used = 0\<rparr>"
  from ctor_spec[OF assms(1), of ic h] obtain h0 where c: "IntSet_ctor D ic h = Some (?s0, h0)"
    "IntSet_inv h0 ?s0" "live h0 ?s0 = []" "unchanged_but (next_addr h) h h0" by blast
  have dj: "set vs \<inter> set (live h0 ?s0) = {}" using c(3) by simp
  have ct: "can_take ?s0 (int (length vs))" using assms(3) by (simp add: can_take_def)
  from add_all_spec[OF c(2) assms(2) dj ct, of D] obtain s h' where a:
    "add_all D vs (?s0, h0) = Some (s, h')" "IntSet_inv h' s" "live h' s = live h0 ?s0 @ vs"
    "used s = used ?s0 + int (length vs)" "unchanged_but (data ?s0) h0 h'"
    "data s = data ?s0 \<or> next_addr h0 \<le> data s" by blast
  have fr: "unchanged_but (next_addr h) h h'" using unchanged_but_trans[OF c(4) a(5)] by simp
  have "next_addr h \<le> next_addr h0" using c(4) by (simp add: unchanged_but_def)
  then have "next_addr h \<le> data s" using a(6) by auto
  then show ?thesis using c a fr
    by (intro exI[of _ ?s0] exI[of _ h0] exI[of _ s] exI[of _ h']) simp
qed

lemma assign_spec:
  assumes t: "objs this = Some t" and r: "objs rhs = Some r"
    and it: "IntSet_inv h t" and ir: "IntSet_inv h r" and own: "data t \<noteq> data r"
    and ne: "this \<noteq> rhs"
  shows "\<exists>h' cs. operator_assign this rhs (objs, h) = Some (objs(this \<mapsto> r\<lparr>data := next_addr h\<rparr>), h') \<and>
          IntSet_inv h' (r\<lparr>data := next_addr h\<rparr>) \<and>
          live h' (r\<lparr>data := next_addr h\<rparr>) = live h r \<and>
          arrays h' (next_addr h) = Some cs \<and> int (length cs) = capacity r \<and>
          arrays h' (data t) = None \<and>
          IntSet_inv h' r \<and> live h' r = live h r \<and>
          unchanged_but (data t) h h'"
proof -
  let ?r' = "r\<lparr>data := next_addr h\<rparr>"
  from copy_spec[OF ir] obtain h2 where c: "IntSet_copy r h = Some (?r', h2)"
    "IntSet_inv h2 ?r'" "live h2 ?r' = live h r" "unchanged_but (next_addr h) h h2" by blast
  from c(1) obtain h1 where n: "new_array (capacity r) h = Some (next_addr h, h1)"
    and l: "copy_loop (data r) (next_addr h) (used r) 0 h1 = Some h2"
    by (auto simp: IntSet_copy_def new_array_def bind_eq_Some_conv split: if_splits)
  have kt: "IntSet_inv h2 t" using unchanged_fresh_keeps[OF c(4) it] by simp
  have kr: "IntSet_inv h2 r" "live h2 r = live h r"
    using unchanged_fresh_keeps[OF c(4) ir] by simp_all
  from kt obtain cs where cs: "arrays h2 (data t) = Some cs" by (rule IntSet_invD)
  let ?h3 = "h2\<lparr>arrays := (arrays h2)(data t := None)\<rparr>"
  have d: "delete_array (data t) h2 = Some ?h3" using cs by (simp add: delete_array_def)
  have eq: "\<lparr>data = next_addr h, capacity = capacity r, used = used r\<rparr> = ?r'" by simp
  have "operator_assign this rhs (objs, h) =
          Some (objs(this \<mapsto> \<lparr>data = next_addr h, capacity = capacity r, used = used r\<rparr>), ?h3)"
    using ne t r n l d by (simp add: operator_assign_def)
  then have res: "operator_assign this rhs (objs, h) = Some (objs(this \<mapsto> ?r'), ?h3)"
    by (simp only: eq)
  have fr3: "unchanged_but (data t) h2 ?h3" by (simp add: unchanged_but_def)
  have lt: "data t < next_addr h" using it by (rule IntSet_invD)
  have k3r: "IntSet_inv ?h3 r" "live ?h3 r = live h2 r"
    using unchanged_but_keeps[OF fr3 kr(1)] own by simp_all
  have k3n: "IntSet_inv ?h3 ?r'" "live ?h3 ?r' = live h2 ?r'"
    using unchanged_but_keeps[OF fr3 c(2)] lt by simp_all
  from k3n(1) obtain cs' where cs': "arrays ?h3 (data ?r') = Some cs'" "int (length cs') = capacity ?r'"
    by (rule IntSet_invD)
  have fr: "unchanged_but (data t) h ?h3"
    using c(4) lt by (auto simp: unchanged_but_def)
  have old: "arrays ?h3 (data t) = None" by simp
  have new: "arrays ?h3 (next_addr h) = Some cs'" "int (length cs') = capacity r" using cs' by simp_all
  show ?thesis
    using res k3n(1) k3n(2) c(3) new old k3r(1) k3r(2) kr(2) fr
    by (intro exI[of _ ?h3] exI[of _ cs']) simp
qed

section \<open>Further facts for the claims\<close>

lemma add_when_contains:
  "contains h u y = Some True \<Longrightarrow> add D y (u, h) = Some (False, u, h)"
  "contains h u y = None \<Longrightarrow> add D y (u, h) = None"
  by (simp_all add: add_def)

lemma union_loops_equal:
  "unionWith_loop D t i u h = unionWith_simple_loop D t i u h"
proof (induction D t i u h rule: unionWith_simple_loop.induct)
  case (1 D t i u h)
  show ?case
  proof (cases "int i < size_IntSet t")
    case False
    then show ?thesis
      by (subst unionWith_loop.simps, subst unionWith_simple_loop.simps) simp
  next
    case lt: True
    show ?thesis
    proof (cases "rd h (data t) i")
      case None
      then show ?thesis using lt
        by (subst unionWith_loop.simps, subst unionWith_simple_loop.simps) simp
    next
      case (Some y)
      show ?thesis
      proof (cases "contains h u y")
        case None
        then show ?thesis using lt Some add_when_contains(2)[OF None, of D]
          by (subst unionWith_loop.simps, subst unionWith_simple_loop.simps) simp
      next
        case c: (Some b)
        show ?thesis
        proof (cases b)
          case True
          with c have a: "add D y (u, h) = Some (False, u, h)" by (simp add: add_when_contains)
          from "1.IH"[OF lt Some a refl] have "unionWith_loop D t (Suc i) u h = unionWith_simple_loop D t (Suc i) u h"
            by simp
          then show ?thesis using lt Some c True a
            by (subst unionWith_loop.simps, subst unionWith_simple_loop.simps) simp
        next
          case False
          show ?thesis
          proof (cases "add D y (u, h)")
            case None
            then show ?thesis using lt Some c False
              by (subst unionWith_loop.simps, subst unionWith_simple_loop.simps) simp
          next
            case a: (Some res)
            obtain b' r where res: "res = (b', r)" by (cases res)
            from "1.IH"[OF lt Some a[unfolded res] refl]
            have "unionWith_loop D t (Suc i) (fst r) (snd r) = unionWith_simple_loop D t (Suc i) (fst r) (snd r)" .
            then show ?thesis using lt Some c False a res
              by (subst unionWith_loop.simps, subst unionWith_simple_loop.simps) (simp add: case_prod_beta)
          qed
        qed
      qed
    qed
  qed
qed








lemma reset_inv: "IntSet_inv h s \<Longrightarrow> IntSet_inv h (reset s)"
  by (auto simp: IntSet_inv_def reset_def split: option.splits)







section \<open>The claims\<close>

text \<open>
  C1. For a set \<open>s\<close> that satisfies the class invariant and every integer \<open>v\<close>:
  \<open>contains\<close> tells whether \<open>v\<close> is among the members. If it is, \<open>remove\<close> returns
  \<open>true\<close>; \<open>v\<close> stood at one position \<open>k\<close>, and the members afterwards are those before
  \<open>k\<close> followed by those behind \<open>k\<close>, each moved one place down, which is the old list
  without \<open>v\<close> in the old order; \<open>size()\<close> is smaller by one and \<open>v\<close> is no longer a
  member. If \<open>v\<close> is not a member, \<open>remove\<close> returns \<open>false\<close> and the object and the
  store are as before.
\<close>

theorem remove_correct:
  assumes "IntSet_inv h s"
  shows "contains h s v = Some (v \<in> set (live h s)) \<and>
         (contains h s v = Some True \<longrightarrow>
            (\<exists>h' k. remove v (s, h) = Some (True, s\<lparr>used := used s - 1\<rparr>, h') \<and>
                    k < length (live h s) \<and> live h s ! k = v \<and>
                    live h' (s\<lparr>used := used s - 1\<rparr>) = take k (live h s) @ drop (Suc k) (live h s) \<and>
                    live h' (s\<lparr>used := used s - 1\<rparr>) = filter (\<lambda>x. x \<noteq> v) (live h s) \<and>
                    size_IntSet (s\<lparr>used := used s - 1\<rparr>) = size_IntSet s - 1 \<and>
                    contains h' (s\<lparr>used := used s - 1\<rparr>) v = Some False \<and>
                    IntSet_inv h' (s\<lparr>used := used s - 1\<rparr>))) \<and>
         (contains h s v = Some False \<longrightarrow> remove v (s, h) = Some (False, s, h))"
proof (intro conjI impI)
  show c: "contains h s v = Some (v \<in> set (live h s))" using assms by (rule contains_live)
  {
    assume "contains h s v = Some True"
    with c have mem: "v \<in> set (live h s)" by simp
    let ?s' = "s\<lparr>used := used s - 1\<rparr>"
    from remove_member[OF assms mem] obtain h' k where r:
      "remove v (s, h) = Some (True, ?s', h')" "IntSet_inv h' ?s'"
      "k < length (live h s)" "live h s ! k = v"
      "live h' ?s' = take k (live h s) @ drop (Suc k) (live h s)" by blast
    have d: "distinct (live h s)" using assms by (rule live_distinct)
    have "take k (live h s) @ drop (Suc k) (live h s) = remove1 v (live h s)"
      using remove1_nth[OF d r(3)] r(4) by simp
    also have "\<dots> = filter (\<lambda>x. x \<noteq> v) (live h s)"
      using d by (simp add: distinct_remove1_removeAll removeAll_filter_not_eq) metis
    finally have f: "live h' ?s' = filter (\<lambda>x. x \<noteq> v) (live h s)" using r(5) by simp
    have "contains h' ?s' v = Some False" using contains_live[OF r(2), of v] f by simp
    then show "\<exists>h' k. remove v (s, h) = Some (True, ?s', h') \<and>
                    k < length (live h s) \<and> live h s ! k = v \<and>
                    live h' ?s' = take k (live h s) @ drop (Suc k) (live h s) \<and>
                    live h' ?s' = filter (\<lambda>x. x \<noteq> v) (live h s) \<and>
                    size_IntSet ?s' = size_IntSet s - 1 \<and>
                    contains h' ?s' v = Some False \<and> IntSet_inv h' ?s'"
      using r f by (intro exI[of _ h'] exI[of _ k]) (simp add: size_IntSet_def)
  }
  {
    assume "contains h s v = Some False"
    with c have "v \<notin> set (live h s)" by simp
    then show "remove v (s, h) = Some (False, s, h)" using assms by (simp add: remove_nonmember)
  }
qed

theorem remove_correct_witness:
  "IntSet_inv ex_heap ex_A \<and> contains ex_heap ex_A 2 = Some True \<and>
   (\<exists>h'. remove 2 (ex_A, ex_heap) = Some (True, ex_A\<lparr>used := 2\<rparr>, h') \<and>
         live h' (ex_A\<lparr>used := 2\<rparr>) = [1, 3]) \<and>
   contains ex_heap ex_A 7 = Some False \<and>
   remove 7 (ex_A, ex_heap) = Some (False, ex_A, ex_heap)"
proof -
  have i: "IntSet_inv ex_heap ex_A" by (simp add: IntSet_inv_def ex_heap_def ex_A_def)
  have l: "live ex_heap ex_A = [1, 2, 3]" by (simp add: live_def ex_heap_def ex_A_def)
  have u: "used ex_A - 1 = 2" by (simp add: ex_A_def)
  from remove_correct[OF i, of 2] remove_correct[OF i, of 7] l u i show ?thesis
    by auto
qed
















text \<open>
  C7. For sets \<open>a\<close> and \<open>b\<close> that satisfy the class invariant, \<open>a.isSubsetOf(b)\<close>
  returns \<open>true\<close> exactly when \<open>b.contains(x)\<close> is \<open>true\<close> for every member \<open>x\<close> of
  \<open>a\<close>. An empty set is a subset of every set, an empty one included.
\<close>

theorem isSubsetOf_correct:
  assumes "IntSet_inv h a" "IntSet_inv h b"
  shows "isSubsetOf h a b = Some (\<forall>x\<in>set (live h a). contains h b x = Some True) \<and>
         (isEmpty a \<longrightarrow> isSubsetOf h a b = Some True) \<and>
         (isEmpty a \<and> isEmpty b \<longrightarrow> isSubsetOf h a b = Some True \<and> isSubsetOf h b a = Some True)"
proof -
  have "(\<forall>x\<in>set (live h a). contains h b x = Some True) = (set (live h a) \<subseteq> set (live h b))"
    using contains_live[OF assms(2)] by auto
  then have "isSubsetOf h a b = Some (\<forall>x\<in>set (live h a). contains h b x = Some True)"
    using isSubsetOf_spec[OF assms] by simp
  moreover have "isEmpty s \<longrightarrow> isSubsetOf h s t = Some True" for s t
    by (simp add: isSubsetOf_def)
  ultimately show ?thesis by blast
qed

theorem isSubsetOf_correct_witness:
  "IntSet_inv ex_heap ex_A \<and> IntSet_inv ex_heap ex_B \<and>
   isSubsetOf ex_heap ex_A ex_B = Some False \<and>
   isSubsetOf ex_heap (reset ex_A) ex_B = Some True \<and>
   isSubsetOf ex_heap (reset ex_A) (reset ex_B) = Some True"
proof -
  have ra: "IntSet_inv ex_heap (reset ex_A)" by (simp add: IntSet_inv_def ex_heap_def ex_A_def reset_def)
  have rb: "IntSet_inv ex_heap (reset ex_B)" by (simp add: IntSet_inv_def ex_heap_def ex_B_def reset_def)
  have e: "isEmpty (reset ex_A)" "isEmpty (reset ex_B)" by (simp_all add: isEmpty_def reset_def)
  have c: "contains ex_heap ex_B 1 = Some False"
    using contains_live[OF ex_B_inv, of 1] ex_B_live by simp
  from isSubsetOf_correct[OF ex_A_inv ex_B_inv] isSubsetOf_correct[OF ra ex_B_inv]
    isSubsetOf_correct[OF ra rb] e c ex_A_live ex_A_inv ex_B_inv
  show ?thesis by auto
qed

text \<open>
  C8. For sets \<open>a\<close> and \<open>b\<close> that satisfy the class invariant, \<open>a == b\<close> is \<open>true\<close>
  exactly when \<open>a.isSubsetOf(b)\<close> and \<open>b.isSubsetOf(a)\<close> both are, which is exactly when
  the two have the same members, in whatever order. \<open>a == a\<close> holds, \<open>a == b\<close> and
  \<open>b == a\<close> agree, and two empty sets are equal. A set built by adding 3, 1, 2 to a new
  set equals one built by adding 1, 3, 2 (for a \<open>DEFAULT_CAPACITY\<close> of at least 1 and any
  initial capacities).
\<close>

theorem operator_eq_correct:
  assumes "IntSet_inv h a" "IntSet_inv h b" "1 \<le> D"
  shows "operator_eq h a b = Some (isSubsetOf h a b = Some True \<and> isSubsetOf h b a = Some True) \<and>
         operator_eq h a b = Some (set (live h a) = set (live h b)) \<and>
         operator_eq h a a = Some True \<and>
         operator_eq h a b = operator_eq h b a \<and>
         (isEmpty a \<and> isEmpty b \<longrightarrow> operator_eq h a b = Some True) \<and>
         (\<exists>s0 h0 s h1 t0 h2 t h3.
            IntSet_ctor D ic1 h = Some (s0, h0) \<and> add_all D [3, 1, 2] (s0, h0) = Some (s, h1) \<and>
            IntSet_ctor D ic2 h1 = Some (t0, h2) \<and> add_all D [1, 3, 2] (t0, h2) = Some (t, h3) \<and>
            live h3 s = [3, 1, 2] \<and> live h3 t = [1, 3, 2] \<and>
            operator_eq h3 s t = Some True)"
proof -
  have sub: "isSubsetOf h a b = Some (set (live h a) \<subseteq> set (live h b))"
    "isSubsetOf h b a = Some (set (live h b) \<subseteq> set (live h a))"
    using isSubsetOf_spec assms by simp_all
  have eq: "operator_eq h a b = Some (set (live h a) = set (live h b))"
    using operator_eq_spec[OF assms(1,2)] .
  have 1: "operator_eq h a b = Some (isSubsetOf h a b = Some True \<and> isSubsetOf h b a = Some True)"
    unfolding eq sub by auto
  have 3: "operator_eq h a a = Some True" using operator_eq_spec[OF assms(1,1)] by simp
  have 4: "operator_eq h a b = operator_eq h b a"
    using operator_eq_spec[OF assms(1,2)] operator_eq_spec[OF assms(2,1)] by auto
  have 5: "isEmpty a \<and> isEmpty b \<longrightarrow> operator_eq h a b = Some True"
  proof
    assume e: "isEmpty a \<and> isEmpty b"
    have "live h a = []" "live h b = []"
      using live_length[OF assms(1)] live_length[OF assms(2)] e by (simp_all add: isEmpty_def)
    then show "operator_eq h a b = Some True" using eq by simp
  qed
  have 6: "\<exists>s0 h0 s h1 t0 h2 t h3.
            IntSet_ctor D ic1 h = Some (s0, h0) \<and> add_all D [3, 1, 2] (s0, h0) = Some (s, h1) \<and>
            IntSet_ctor D ic2 h1 = Some (t0, h2) \<and> add_all D [1, 3, 2] (t0, h2) = Some (t, h3) \<and>
            live h3 s = [3, 1, 2] \<and> live h3 t = [1, 3, 2] \<and>
            operator_eq h3 s t = Some True"
  proof -
    have d1: "distinct [3, 1, 2 :: int]" and d2: "distinct [1, 3, 2 :: int]" by simp_all
    have l1: "int (length [3, 1, 2 :: int]) \<le> 1431655765"
      and l2: "int (length [1, 3, 2 :: int]) \<le> 1431655765" by simp_all
    from build_set[OF assms(3) d1 l1, of ic1 h] obtain s0 h0 s h1 where
      s: "IntSet_ctor D ic1 h = Some (s0, h0)" "add_all D [3, 1, 2] (s0, h0) = Some (s, h1)"
         "IntSet_inv h1 s" "live h1 s = [3, 1, 2]" by blast
    from build_set[OF assms(3) d2 l2, of ic2 h1] obtain t0 h2 t h3 where
      t: "IntSet_ctor D ic2 h1 = Some (t0, h2)" "add_all D [1, 3, 2] (t0, h2) = Some (t, h3)"
         "IntSet_inv h3 t" "live h3 t = [1, 3, 2]" "unchanged_but (next_addr h1) h1 h3" by blast
    have k: "IntSet_inv h3 s" "live h3 s = live h1 s"
      using unchanged_fresh_keeps[OF t(5) s(3)] by simp_all
    have "operator_eq h3 s t = Some True"
      using operator_eq_spec[OF k(1) t(3)] k(2) s(4) t(4) by auto
    then show ?thesis using s t k by (metis (no_types, lifting))
  qed
  show ?thesis using 1 eq 3 4 5 6 by blast
qed

theorem operator_eq_correct_witness:
  "IntSet_inv ex_heap ex_A \<and> IntSet_inv ex_heap ex_B \<and> (1::int) \<le> 1 \<and>
   operator_eq ex_heap ex_A ex_B = Some False \<and>
   operator_eq ex_heap ex_B ex_A = Some False \<and>
   operator_eq ex_heap ex_A ex_A = Some True \<and>
   isEmpty (reset ex_A) \<and> isEmpty (reset ex_B) \<and>
   operator_eq ex_heap (reset ex_A) (reset ex_B) = Some True"
proof -
  have D: "(1::int) \<le> 1" by simp
  have e: "isEmpty (reset ex_A)" "isEmpty (reset ex_B)" by (simp_all add: isEmpty_def reset_def)
  from operator_eq_correct[OF reset_inv[OF ex_A_inv] reset_inv[OF ex_B_inv] D, of 1 1] e
  have em: "operator_eq ex_heap (reset ex_A) (reset ex_B) = Some True" by blast
  have ne: "set [1, 2, 3 :: int] \<noteq> set [2, 3, 4]"
  proof
    assume "set [1, 2, 3 :: int] = set [2, 3, 4]"
    moreover have "(1::int) \<in> set [1, 2, 3]" by simp
    ultimately have "(1::int) \<in> set [2, 3, 4]" by (rule subst)
    then show False by simp
  qed
  from operator_eq_correct[OF ex_A_inv ex_B_inv D, of 1 1]
  have "operator_eq ex_heap ex_A ex_B = Some (set (live ex_heap ex_A) = set (live ex_heap ex_B))"
    "operator_eq ex_heap ex_A ex_A = Some True"
    "operator_eq ex_heap ex_A ex_B = operator_eq ex_heap ex_B ex_A" by blast+
  then show ?thesis using ne ex_A_inv ex_B_inv e em unfolding ex_A_live ex_B_live by simp
qed

text \<open>
  C9. \<open>a = a\<close> leaves the table of objects and the store exactly as they are. For two
  different objects that satisfy the class invariant and own different blocks, \<open>t = r\<close>
  gives \<open>t\<close> a block that \<open>new\<close> hands out in this call, of \<open>r\<close>'s capacity, holding
  \<open>r\<close>'s members in \<open>r\<close>'s order, and \<open>r\<close>'s \<open>capacity\<close> and \<open>used\<close>; \<open>contains\<close> and
  \<open>DumpData\<close> answer for \<open>t\<close> as they did for \<open>r\<close>; the old block of \<open>t\<close> is
  released; \<open>r\<close> is as before.
\<close>

theorem operator_assign_correct:
  assumes "objs this = Some t" "objs rhs = Some r" "IntSet_inv h t" "IntSet_inv h r"
    and "this \<noteq> rhs \<longrightarrow> data t \<noteq> data r"
  shows "(this = rhs \<longrightarrow> operator_assign this rhs (objs, h) = Some (objs, h)) \<and>
         (this \<noteq> rhs \<longrightarrow>
            (\<exists>h' t' cs. operator_assign this rhs (objs, h) = Some (objs(this \<mapsto> t'), h') \<and>
                  capacity t' = capacity r \<and> used t' = used r \<and>
                  data t' = next_addr h \<and> arrays h' (data t') = Some cs \<and>
                  int (length cs) = capacity r \<and>
                  live h' t' = live h r \<and> DumpData h' t' out = DumpData h r out \<and>
                  (\<forall>v. contains h' t' v = contains h r v) \<and>
                  IntSet_inv h' t' \<and>
                  arrays h' (data t) = None \<and>
                  IntSet_inv h' r \<and> live h' r = live h r))"
proof (intro conjI impI)
  assume "this = rhs"
  then show "operator_assign this rhs (objs, h) = Some (objs, h)"
    by (simp add: operator_assign_def)
next
  assume ne: "this \<noteq> rhs"
  with assms have own: "data t \<noteq> data r" by simp
  let ?t' = "r\<lparr>data := next_addr h\<rparr>"
  from assign_spec[OF assms(1,2,3,4) own ne] obtain h' cs where a:
    "operator_assign this rhs (objs, h) = Some (objs(this \<mapsto> ?t'), h')"
    "IntSet_inv h' ?t'" "live h' ?t' = live h r" "arrays h' (next_addr h) = Some cs"
    "int (length cs) = capacity r" "arrays h' (data t) = None" "IntSet_inv h' r" "live h' r = live h r"
    by blast
  have dump: "DumpData h' ?t' out = DumpData h r out"
    using DumpData_spec[OF a(2)] DumpData_spec[OF assms(4)] a(3) by simp
  have cont: "\<forall>v. contains h' ?t' v = contains h r v"
    using contains_live[OF a(2)] contains_live[OF assms(4)] a(3) by simp
  show "\<exists>h' t' cs. operator_assign this rhs (objs, h) = Some (objs(this \<mapsto> t'), h') \<and>
                  capacity t' = capacity r \<and> used t' = used r \<and>
                  data t' = next_addr h \<and> arrays h' (data t') = Some cs \<and>
                  int (length cs) = capacity r \<and>
                  live h' t' = live h r \<and> DumpData h' t' out = DumpData h r out \<and>
                  (\<forall>v. contains h' t' v = contains h r v) \<and>
                  IntSet_inv h' t' \<and>
                  arrays h' (data t) = None \<and>
                  IntSet_inv h' r \<and> live h' r = live h r"
    using a dump cont by (intro exI[of _ h'] exI[of _ ?t'] exI[of _ cs]) simp
qed

theorem operator_assign_correct_witness:
  "ex_objs 10 = Some ex_A \<and> ex_objs 11 = Some ex_B \<and> IntSet_inv ex_heap ex_A \<and>
   IntSet_inv ex_heap ex_B \<and> data ex_A \<noteq> data ex_B \<and>
   operator_assign 10 10 (ex_objs, ex_heap) = Some (ex_objs, ex_heap) \<and>
   (\<exists>h' t'. operator_assign 10 11 (ex_objs, ex_heap) = Some (ex_objs(10 \<mapsto> t'), h') \<and>
            capacity t' = 3 \<and> used t' = 3 \<and> live h' t' = [2, 3, 4] \<and> live h' ex_B = [2, 3, 4])"
proof -
  have o: "ex_objs 10 = Some ex_A" "ex_objs 11 = Some ex_B" by (simp_all add: ex_objs_def)
  have d: "data ex_A \<noteq> data ex_B" by (simp add: ex_A_def ex_B_def)
  have d1: "(10::nat) \<noteq> 11 \<longrightarrow> data ex_A \<noteq> data ex_B" using d by simp
  have d2: "(10::nat) \<noteq> 10 \<longrightarrow> data ex_A \<noteq> data ex_A" by simp
  have cu: "capacity ex_B = 3" "used ex_B = 3" by (simp_all add: ex_B_def)
  from operator_assign_correct[where objs = ex_objs and this = 10 and rhs = 10 and t = ex_A
      and r = ex_A and h = ex_heap, OF o(1) o(1) ex_A_inv ex_A_inv d2]
  have self: "operator_assign 10 10 (ex_objs, ex_heap) = Some (ex_objs, ex_heap)" by simp
  from operator_assign_correct[OF o(1) o(2) ex_A_inv ex_B_inv d1, of "[]"]
  have "\<exists>h' t'. operator_assign 10 11 (ex_objs, ex_heap) = Some (ex_objs(10 \<mapsto> t'), h') \<and>
            capacity t' = 3 \<and> used t' = 3 \<and> live h' t' = [2, 3, 4] \<and> live h' ex_B = [2, 3, 4]"
    unfolding ex_B_live cu by auto
  then show ?thesis using o d self ex_A_inv ex_B_inv by simp
qed

text \<open>
  C10. \<open>unionWith\<close> returns the same object and the same store as the procedure that
  copies \<open>*this\<close> and calls \<open>add\<close> on every element of the other set without asking
  \<open>contains\<close> first. For sets that satisfy the class invariant, when the first can take
  the members of the second that it lacks (\<open>can_take\<close>: the union has at most 1431655765
  members, or fits in the capacity of the first set, so that no request of \<open>add\<close> leaves
  the range of \<open>int\<close>), both return a result, the same one, with the members of the
  first set followed by those of the second that it lacks; beyond that bound the two
  procedures are undefined together. The reason is that \<open>add\<close> of a value for which
  \<open>contains\<close> answers \<open>true\<close> returns \<open>false\<close> and changes nothing.
\<close>

theorem unionWith_guard_redundant:
  assumes "IntSet_inv h a" "IntSet_inv h b"
  shows "unionWith D a b h = unionWith_simple D a b h \<and>
         (can_take a (int (length (filter (\<lambda>x. x \<notin> set (live h a)) (live h b)))) \<longrightarrow>
            (\<exists>u h'. unionWith D a b h = Some (u, h') \<and>
                     unionWith_simple D a b h = Some (u, h') \<and>
                     live h' u = live h a @ filter (\<lambda>x. x \<notin> set (live h a)) (live h b))) \<and>
         (\<forall>u x. contains h u x = Some True \<longrightarrow> add D x (u, h) = Some (False, u, h))"
proof (intro conjI impI allI)
  show e: "unionWith D a b h = unionWith_simple D a b h"
    by (simp add: unionWith_def unionWith_simple_def union_loops_equal)
  show "add D x (u, h) = Some (False, u, h)" if "contains h u x = Some True" for u x
    using that by (simp add: add_when_contains)
  assume room: "can_take a (int (length (filter (\<lambda>x. x \<notin> set (live h a)) (live h b))))"
  from unionWith_spec[OF assms room, of D] obtain u h' where u:
    "unionWith D a b h = Some (u, h')"
    "live h' u = live h a @ filter (\<lambda>x. x \<notin> set (live h a)) (live h b)" by blast
  have "unionWith_simple D a b h = Some (u, h')" using u(1) e by simp
  then show "\<exists>u h'. unionWith D a b h = Some (u, h') \<and>
                     unionWith_simple D a b h = Some (u, h') \<and>
                     live h' u = live h a @ filter (\<lambda>x. x \<notin> set (live h a)) (live h b)"
    using u by blast
qed

theorem unionWith_guard_redundant_witness:
  "IntSet_inv ex_heap ex_A \<and> IntSet_inv ex_heap ex_B \<and>
   can_take ex_A (int (length (filter (\<lambda>x. x \<notin> set (live ex_heap ex_A)) (live ex_heap ex_B)))) \<and>
   (\<exists>u h'. unionWith 1 ex_A ex_B ex_heap = Some (u, h') \<and>
            unionWith_simple 1 ex_A ex_B ex_heap = Some (u, h') \<and> live h' u = [1, 2, 3, 4]) \<and>
   contains ex_heap ex_A 2 = Some True \<and> add 1 2 (ex_A, ex_heap) = Some (False, ex_A, ex_heap)"
proof -
  have c: "contains ex_heap ex_A 2 = Some True"
    using contains_live[OF ex_A_inv, of 2] ex_A_live by simp
  have room: "can_take ex_A (int (length (filter (\<lambda>x. x \<notin> set (live ex_heap ex_A)) (live ex_heap ex_B))))"
    unfolding ex_A_live ex_B_live using ex_can_take(1) by simp
  note th = unionWith_guard_redundant[OF ex_A_inv ex_B_inv, of 1]
  from th c have a: "add 1 2 (ex_A, ex_heap) = Some (False, ex_A, ex_heap)" by blast
  from th room have "\<exists>u h'. unionWith 1 ex_A ex_B ex_heap = Some (u, h') \<and>
            unionWith_simple 1 ex_A ex_B ex_heap = Some (u, h') \<and>
            live h' u = live ex_heap ex_A @ filter (\<lambda>x. x \<notin> set (live ex_heap ex_A)) (live ex_heap ex_B)"
    by blast
  then have "\<exists>u h'. unionWith 1 ex_A ex_B ex_heap = Some (u, h') \<and>
            unionWith_simple 1 ex_A ex_B ex_heap = Some (u, h') \<and> live h' u = [1, 2, 3, 4]"
    unfolding ex_A_live ex_B_live by simp
  then show ?thesis using ex_A_inv ex_B_inv c a room by simp
qed

end
